theory Spec2Isabelle
  imports Main "HOL-Library.Char_ord"
begin

section \<open>Regular expressions as used by the validators\<close>

text \<open>
  \<^verbatim>\<open>src/index.ts\<close> validates its two command-line arguments with
  \<^verbatim>\<open>RegExp.prototype.test\<close> on two patterns that are anchored with \<^verbatim>\<open>^\<close> and
  \<^verbatim>\<open>$\<close>, carry no flags, and are built from literal characters, bracket classes,
  \<^verbatim>\<open>\d\<close>, grouping, alternation, \<^verbatim>\<open>?\<close> and \<^verbatim>\<open>+\<close> only.  For such a pattern
  \<^verbatim>\<open>test\<close> answers whether the whole input belongs to the language of the pattern
  (capture groups do not influence the answer).  The patterns are embedded as values
  of the datatype \<open>regex\<close>; \<open>matches\<close> decides membership by taking derivatives, and
  \<open>lang\<close> gives the language it decides.  \<open>Never\<close>, \<open>Empty\<close> and \<open>Star\<close> do not occur
  in the source patterns; they arise as derivatives.

  Strings are \<open>string\<close>.  Every class of the two patterns holds ASCII characters only,
  so a UTF-16 code unit outside that range behaves like any other character that is
  neither a digit, a dot nor a hyphen.
\<close>

datatype regex =
    Never
  | Empty
  | Cls "(char \<times> char) list"
  | Seq regex regex
  | Alt regex regex
  | Opt regex
  | Star regex
  | Plus regex

text \<open>A bracket class is a list of inclusive ranges; a literal \<open>c\<close> is the class \<open>[c-c]\<close>.\<close>

definition in_cls :: "(char \<times> char) list \<Rightarrow> char \<Rightarrow> bool" where
  "in_cls rs c = list_ex (\<lambda>(lo, hi). lo \<le> c \<and> c \<le> hi) rs"

definition lit :: "char \<Rightarrow> regex" where
  "lit c = Cls [(c, c)]"

definition rng :: "char \<Rightarrow> char \<Rightarrow> regex" where
  "rng lo hi = Cls [(lo, hi)]"

text \<open>\<^verbatim>\<open>\d\<close> without the unicode-sets flag is \<^verbatim>\<open>[0-9]\<close>.\<close>

definition digit :: regex where
  "digit = rng CHR ''0'' CHR ''9''"

fun nullable :: "regex \<Rightarrow> bool" where
  "nullable Never = False"
| "nullable Empty = True"
| "nullable (Cls rs) = False"
| "nullable (Seq a b) = (nullable a \<and> nullable b)"
| "nullable (Alt a b) = (nullable a \<or> nullable b)"
| "nullable (Opt a) = True"
| "nullable (Star a) = True"
| "nullable (Plus a) = nullable a"

fun deriv :: "char \<Rightarrow> regex \<Rightarrow> regex" where
  "deriv c Never = Never"
| "deriv c Empty = Never"
| "deriv c (Cls rs) = (if in_cls rs c then Empty else Never)"
| "deriv c (Seq a b) =
     (if nullable a then Alt (Seq (deriv c a) b) (deriv c b) else Seq (deriv c a) b)"
| "deriv c (Alt a b) = Alt (deriv c a) (deriv c b)"
| "deriv c (Opt a) = deriv c a"
| "deriv c (Star a) = Seq (deriv c a) (Star a)"
| "deriv c (Plus a) = Seq (deriv c a) (Star a)"

fun matches :: "regex \<Rightarrow> string \<Rightarrow> bool" where
  "matches r [] = nullable r"
| "matches r (c # cs) = matches (deriv c r) cs"

text \<open>The language of a pattern: the set of strings a whole-input match accepts.\<close>

definition conc :: "string set \<Rightarrow> string set \<Rightarrow> string set" where
  "conc A B = {u @ v | u v. u \<in> A \<and> v \<in> B}"

inductive_set star :: "string set \<Rightarrow> string set" for A :: "string set" where
  star_nil: "[] \<in> star A"
| star_app: "u \<in> A \<Longrightarrow> v \<in> star A \<Longrightarrow> u @ v \<in> star A"

fun lang :: "regex \<Rightarrow> string set" where
  "lang Never = {}"
| "lang Empty = {[]}"
| "lang (Cls rs) = {[c] | c. in_cls rs c}"
| "lang (Seq a b) = conc (lang a) (lang b)"
| "lang (Alt a b) = lang a \<union> lang b"
| "lang (Opt a) = insert [] (lang a)"
| "lang (Star a) = star (lang a)"
| "lang (Plus a) = conc (lang a) (star (lang a))"

section \<open>The validators\<close>

text \<open>
  \<^verbatim>\<open>const REGEXP_IP = /^(25[0-5]|2[0-4][0-9]|[01]?[0-9][0-9]?)\.(25[0-5]|2[0-4][0-9]|[01]?[0-9][0-9]?)\.(25[0-5]|2[0-4][0-9]|[01]?[0-9][0-9]?)\.(25[0-5]|2[0-4][0-9]|[01]?[0-9][0-9]?)$/\<close>:
  the same group four times, separated by literal dots.  \<open>OCTET\<close> is that group,
  \<^verbatim>\<open>25[0-5]|2[0-4][0-9]|[01]?[0-9][0-9]?\<close>.
\<close>

definition OCTET :: regex where
  "OCTET =
     Alt (Seq (lit CHR ''2'') (Seq (lit CHR ''5'') (rng CHR ''0'' CHR ''5'')))
    (Alt (Seq (lit CHR ''2'') (Seq (rng CHR ''0'' CHR ''4'') (rng CHR ''0'' CHR ''9'')))
         (Seq (Opt (Cls [(CHR ''0'', CHR ''0''), (CHR ''1'', CHR ''1'')]))
              (Seq (rng CHR ''0'' CHR ''9'') (Opt (rng CHR ''0'' CHR ''9'')))))"

definition REGEXP_IP :: regex where
  "REGEXP_IP =
     Seq OCTET (Seq (lit CHR ''.'')
    (Seq OCTET (Seq (lit CHR ''.'')
    (Seq OCTET (Seq (lit CHR ''.'') OCTET)))))"

text \<open>\<^verbatim>\<open>const REGEXP_PORT_RANGE = /^(\d+)-(\d+)$/\<close>\<close>

definition REGEXP_PORT_RANGE :: regex where
  "REGEXP_PORT_RANGE = Seq (Plus digit) (Seq (lit CHR ''-'') (Plus digit))"

definition isIpCheck :: "string \<Rightarrow> bool" where
  "isIpCheck host = matches REGEXP_IP host"

definition isPortRangeCheck :: "string \<Rightarrow> bool" where
  "isPortRangeCheck portRange = matches REGEXP_PORT_RANGE portRange"

section \<open>Strings and numbers\<close>

text \<open>
  \<^verbatim>\<open>String.prototype.split\<close> with a one-character separator: the pieces between the
  occurrences of the separator, at least one piece.  The second branch of the
  \<open>case\<close> is never taken, since the result is never empty.
\<close>

fun split_on :: "char \<Rightarrow> string \<Rightarrow> string list" where
  "split_on sep [] = [[]]"
| "split_on sep (c # cs) =
     (if c = sep then [] # split_on sep cs
      else (case split_on sep cs of g # gs \<Rightarrow> (c # g) # gs | [] \<Rightarrow> [[c]]))"

definition is_digit :: "char \<Rightarrow> bool" where
  "is_digit c = (CHR ''0'' \<le> c \<and> c \<le> CHR ''9'')"

definition digit_val :: "char \<Rightarrow> nat" where
  "digit_val c = of_char c - 48"

text \<open>
  \<^verbatim>\<open>Number(s)\<close> on a string of decimal digits: its decimal value (leading zeros are
  ignored).  \<open>main\<close> applies it only to the two pieces of a string that passed
  \<open>isPortRangeCheck\<close>, which are non-empty digit strings.  JavaScript numbers are
  doubles, and \<open>nat\<close> stands for them here.  That is exact for every digit string
  whose value is below \<open>2 ^ 53\<close>, so on the whole port space \<open>0 .. 65535\<close> and
  far beyond it.  For a longer digit string JavaScript rounds the value to the nearest
  double (it reads \<^verbatim>\<open>9007199254740993\<close> as \<open>9007199254740992\<close>), and there this
  definition gives the unrounded value: nothing below is claimed about what the
  program prints or compares for such numbers.
\<close>

definition Number :: "string \<Rightarrow> nat" where
  "Number s = foldl (\<lambda>n c. 10 * n + digit_val c) 0 s"

section \<open>The per-port probe\<close>

text \<open>
  What \<^verbatim>\<open>scanPort\<close> resolves its promise with: \<^verbatim>\<open>null\<close> or the port number.
  \<open>truthy\<close> is JavaScript's \<^verbatim>\<open>ToBoolean\<close> on these values: \<^verbatim>\<open>null\<close> and \<^verbatim>\<open>0\<close>
  are falsy, every other number here is truthy.
\<close>

datatype jsval = JNull | JNum nat

fun truthy :: "jsval \<Rightarrow> bool" where
  "truthy JNull = False"
| "truthy (JNum n) = (n \<noteq> 0)"

datatype 'a promise = Pending | Resolved 'a | Rejected

text \<open>
  The network is an external collaborator.  For one connection attempt it says what the
  remote end does and after how many milliseconds: the connection is established, the
  attempt fails (refused, unreachable, reset), or nothing ever comes back.
\<close>

datatype link = ConnectsAfter nat | FailsAfter nat | NoAnswer

type_synonym net = "string \<Rightarrow> nat \<Rightarrow> link"

text \<open>
  What a \<^verbatim>\<open>net.Socket\<close> does on \<^verbatim>\<open>connect(port, host)\<close> after
  \<^verbatim>\<open>setTimeout(timeout)\<close>, as the code sees it.  \<^verbatim>\<open>connect\<close> checks its arguments
  first: a port above 65535 makes it throw \<^verbatim>\<open>ERR_SOCKET_BAD_PORT\<close> synchronously
  (\<open>Throws\<close>).  Otherwise the socket emits the first of the three events the code
  listens to: \<^verbatim>\<open>connect\<close> or \<^verbatim>\<open>error\<close> when the remote end answers before the
  timeout has elapsed, \<^verbatim>\<open>timeout\<close> when it has not answered by then (an answer at
  exactly the timeout counts as late).  Later events are left out: they find the
  promise settled.
\<close>

datatype sock_event = Connect | Timeout | Error

datatype conn = Throws | Emits "sock_event list"

definition socket_connect :: "nat \<Rightarrow> nat \<Rightarrow> link \<Rightarrow> conn" where
  "socket_connect timeout port l =
     (if 65535 < port then Throws
      else case l of
             ConnectsAfter t \<Rightarrow> Emits [if t < timeout then Connect else Timeout]
           | FailsAfter t \<Rightarrow> Emits [if t < timeout then Error else Timeout]
           | NoAnswer \<Rightarrow> Emits [Timeout])"

record probe_state =
  settled :: "jsval promise"
  destroyed :: bool
  timeout_ms :: nat

text \<open>Settling a promise a second time has no effect.\<close>

definition resolve :: "jsval \<Rightarrow> probe_state \<Rightarrow> probe_state" where
  "resolve v st = (if settled st = Pending then st\<lparr>settled := Resolved v\<rparr> else st)"

definition destroy :: "probe_state \<Rightarrow> probe_state" where
  "destroy st = st\<lparr>destroyed := True\<rparr>"

text \<open>
  The three handlers of \<^verbatim>\<open>scanPort\<close>:
  \<^verbatim>\<open>on('connect', () => { resolve(port); socket.destroy(); })\<close>,
  \<^verbatim>\<open>on('timeout', () => { socket.destroy(); resolve(null); })\<close>,
  \<^verbatim>\<open>on('error', () => { resolve(null); })\<close>.
\<close>

fun on_event :: "nat \<Rightarrow> probe_state \<Rightarrow> sock_event \<Rightarrow> probe_state" where
  "on_event port st Connect = destroy (resolve (JNum port) st)"
| "on_event port st Timeout = resolve JNull (destroy st)"
| "on_event port st Error = resolve JNull st"

text \<open>
  \<^verbatim>\<open>scanPort(host, port)\<close>: the state the returned promise ends in.  The executor
  creates the socket, sets its timeout with \<^verbatim>\<open>setTimeout(2000)\<close>, registers the
  handlers and calls \<^verbatim>\<open>socket.connect(port, host)\<close>; an exception thrown there
  rejects the promise, and \<^verbatim>\<open>reject\<close> is never called by the code itself.
\<close>

definition scanPort :: "net \<Rightarrow> string \<Rightarrow> nat \<Rightarrow> jsval promise" where
  "scanPort nw host port =
     (let socket = \<lparr>settled = Pending, destroyed = False, timeout_ms = 2000\<rparr>
      in case socket_connect (timeout_ms socket) port (nw host port) of
           Throws \<Rightarrow> Rejected
         | Emits evs \<Rightarrow> settled (foldl (on_event port) socket evs))"

section \<open>The scan orchestrator\<close>

text \<open>The effects of a run that an observer can see, in the order they happen.\<close>

datatype failure =
    DomainResolveFailed
  | IpInvalid string
  | PortRangeInvalid string
  | SocketFailure

datatype action =
    DnsLookup string
  | ScanStart string nat nat
  | BarCreate int
  | Tick
  | Probe string nat
  | Settled nat jsval
  | EraseLine
  | Report "nat list"
  | LogError failure

text \<open>How an \<^verbatim>\<open>async\<close> function ends: its promise is fulfilled, rejected, or never settles.\<close>

datatype outcome = Fulfilled | Thrown failure | Stalled

record scan_state =
  trace :: "action list"
  openPorts :: "nat list"
  bar_total :: int
  bar_curr :: nat

definition emit :: "action \<Rightarrow> scan_state \<Rightarrow> scan_state" where
  "emit a st = st\<lparr>trace := trace st @ [a]\<rparr>"

text \<open>\<^verbatim>\<open>progressBar.tick()\<close> advances the bar by one.\<close>

definition tick :: "scan_state \<Rightarrow> scan_state" where
  "tick st = emit Tick (st\<lparr>bar_curr := bar_curr st + 1\<rparr>)"

text \<open>
  The loop of \<^verbatim>\<open>scanPorts\<close>:
  \<^verbatim>\<open>for (let port = startPort; port <= endPort; port++) {
    progressBar.tick();
    const portStatus = await scanPort(host, port);
    if (portStatus !== null && portStatus) { erase line; openPorts.push(port); } }\<close>.
  \<open>Probe\<close> marks the call of \<^verbatim>\<open>scanPort\<close>, \<open>Settled\<close> the return of the \<^verbatim>\<open>await\<close>.
  Awaiting a rejected promise throws out of the loop; awaiting a promise that never
  settles suspends the loop for ever.
\<close>

function scan_loop :: "net \<Rightarrow> string \<Rightarrow> nat \<Rightarrow> nat \<Rightarrow> scan_state \<Rightarrow> outcome \<times> scan_state" where
  "scan_loop nw host port endPort st =
     (if port \<le> endPort then
        (let st1 = emit (Probe host port) (tick st) in
         case scanPort nw host port of
           Pending \<Rightarrow> (Stalled, st1)
         | Rejected \<Rightarrow> (Thrown SocketFailure, st1)
         | Resolved portStatus \<Rightarrow>
             (let st2 = emit (Settled port portStatus) st1;
                  st3 = (if portStatus \<noteq> JNull \<and> truthy portStatus
                         then (emit EraseLine st2)\<lparr>openPorts := openPorts st2 @ [port]\<rparr>
                         else st2)
              in scan_loop nw host (port + 1) endPort st3))
      else (Fulfilled, st))"
  by pat_completeness auto
termination
  by (relation "measure (\<lambda>(nw, host, port, endPort, st). Suc endPort - port)") auto

declare scan_loop.simps [simp del]

text \<open>
  \<^verbatim>\<open>scanPorts(host, startPort, endPort)\<close>: prints the header, creates the progress bar
  with \<^verbatim>\<open>total: endPort - startPort\<close>, runs the loop and prints the list of open
  ports and their count.  The result is how the call ends and the final state.
\<close>

definition scanPorts :: "net \<Rightarrow> string \<Rightarrow> nat \<Rightarrow> nat \<Rightarrow> outcome \<times> scan_state" where
  "scanPorts nw host startPort endPort =
     (let st0 = \<lparr>trace = [ScanStart host startPort endPort,
                           BarCreate (int endPort - int startPort)],
                 openPorts = [],
                 bar_total = int endPort - int startPort,
                 bar_curr = 0\<rparr>
      in case scan_loop nw host startPort endPort st0 of
           (Fulfilled, st) \<Rightarrow> (Fulfilled, emit (Report (openPorts st)) st)
         | (r, st) \<Rightarrow> (r, st))"

section \<open>The main function and the process\<close>

text \<open>The external collaborators of a run: the system resolver and the network.\<close>

record world =
  dns_lookup :: "string \<Rightarrow> string option"
  net_connect :: net

text \<open>
  \<^verbatim>\<open>resolveDomain(host)\<close>: one \<^verbatim>\<open>dns.lookup\<close>; its address on success, and an
  assertion failure when the lookup throws.
\<close>

definition resolveDomain :: "world \<Rightarrow> string \<Rightarrow> (failure + string) \<times> action list" where
  "resolveDomain w host =
     (case dns_lookup w host of
        Some address \<Rightarrow> (Inr address, [DnsLookup host])
      | None \<Rightarrow> (Inl DomainResolveFailed, [DnsLookup host]))"

text \<open>
  \<^verbatim>\<open>main()\<close>, with the two globals \<^verbatim>\<open>ip\<close> and \<^verbatim>\<open>portrange\<close> that the command-line
  parser fills as parameters.  A failed \<^verbatim>\<open>assert\<close> throws.  The host is resolved
  first, when it is not an IPv4 literal; then come the two assertions, on the host and
  on the port range; then \<^verbatim>\<open>portrange.split('-').map(Number)\<close> and the scan of
  \<^verbatim>\<open>ports[0]\<close> to \<^verbatim>\<open>ports[1]\<close>.  A port range that passed the assertion splits
  into exactly two pieces (lemma \<open>range_ports\<close> below), so both indices are in range.
\<close>

definition main :: "world \<Rightarrow> string \<Rightarrow> string \<Rightarrow> outcome \<times> action list" where
  "main w ip portrange =
     (case (if \<not> isIpCheck ip then resolveDomain w ip else (Inr ip, [])) of
        (Inl e, tr) \<Rightarrow> (Thrown e, tr)
      | (Inr host, tr) \<Rightarrow>
          if \<not> isIpCheck host then (Thrown (IpInvalid ip), tr)
          else if \<not> isPortRangeCheck portrange then (Thrown (PortRangeInvalid portrange), tr)
          else
            (let ports = map Number (split_on CHR ''-'' portrange);
                 (r, st) = scanPorts (net_connect w) host (ports ! 0) (ports ! 1)
             in (r, tr @ trace st)))"

text \<open>
  \<^verbatim>\<open>main().then(() => process.exit(0)).catch((err) => { console.error(err); process.exit(1) })\<close>:
  the exit code of the process (none when \<open>main\<close> never settles) and everything it did.
\<close>

definition run :: "world \<Rightarrow> string \<Rightarrow> string \<Rightarrow> nat option \<times> action list" where
  "run w ip portrange =
     (case main w ip portrange of
        (Fulfilled, tr) \<Rightarrow> (Some 0, tr)
      | (Thrown e, tr) \<Rightarrow> (Some 1, tr @ [LogError e])
      | (Stalled, tr) \<Rightarrow> (None, tr))"

section \<open>Vocabulary of the specification\<close>

text \<open>
  A decimal group is a non-empty string of decimal digits.  The specification's reading
  of a valid IPv4 literal: exactly four dot-separated decimal groups, the numeric value
  of each in \<open>[0, 255]\<close>.
\<close>

definition decimal_group :: "string \<Rightarrow> bool" where
  "decimal_group g = (g \<noteq> [] \<and> list_all is_digit g)"

definition spec_isValidIPv4 :: "string \<Rightarrow> bool" where
  "spec_isValidIPv4 s =
     (let gs = split_on CHR ''.'' s
      in length gs = 4 \<and> list_all (\<lambda>g. decimal_group g \<and> Number g \<le> 255) gs)"

text \<open>What the group of \<open>REGEXP_IP\<close> accepts: one to three digits of value at most 255.\<close>

definition octet :: "string \<Rightarrow> bool" where
  "octet g = (g \<noteq> [] \<and> length g \<le> 3 \<and> list_all is_digit g \<and> Number g \<le> 255)"

text \<open>
  A port answers a probe when the socket of the probe emits at least one of the three
  events, and accepts the connection when the first of them is \<^verbatim>\<open>connect\<close>.
\<close>

definition responds :: "net \<Rightarrow> string \<Rightarrow> nat \<Rightarrow> bool" where
  "responds nw host port =
     (case socket_connect 2000 port (nw host port) of Emits (e # es) \<Rightarrow> True | _ \<Rightarrow> False)"

definition accepts :: "net \<Rightarrow> string \<Rightarrow> nat \<Rightarrow> bool" where
  "accepts nw host port =
     (case socket_connect 2000 port (nw host port) of Emits (Connect # es) \<Rightarrow> True | _ \<Rightarrow> False)"

text \<open>
  What one round of the loop adds to the trace for a port that answers: the tick, the
  probe, the value the \<^verbatim>\<open>await\<close> returns, and the erased line when the port is
  recorded.
\<close>

definition iteration :: "net \<Rightarrow> string \<Rightarrow> nat \<Rightarrow> action list" where
  "iteration nw host p =
     (if accepts nw host p
      then [Tick, Probe host p, Settled p (JNum p)] @ (if p \<noteq> 0 then [EraseLine] else [])
      else [Tick, Probe host p, Settled p JNull])"

text \<open>Projections of a trace.\<close>

fun is_dns :: "action \<Rightarrow> bool" where
  "is_dns (DnsLookup h) = True"
| "is_dns a = False"

fun is_probe :: "action \<Rightarrow> bool" where
  "is_probe (Probe h p) = True"
| "is_probe a = False"

fun is_tick :: "action \<Rightarrow> bool" where
  "is_tick Tick = True"
| "is_tick a = False"

fun is_net_event :: "action \<Rightarrow> bool" where
  "is_net_event (Probe h p) = True"
| "is_net_event (Settled p v) = True"
| "is_net_event a = False"

fun is_report :: "action \<Rightarrow> bool" where
  "is_report (Report ps) = True"
| "is_report a = False"

text \<open>The actions of the loop of the orchestrator on a given host.\<close>

fun loop_action :: "string \<Rightarrow> action \<Rightarrow> bool" where
  "loop_action host Tick = True"
| "loop_action host (Probe h p) = (h = host)"
| "loop_action host (Settled p v) = True"
| "loop_action host EraseLine = True"
| "loop_action host a = False"

text \<open>
  The progress reporting as the specification words it: a tick after every probe, as
  many ticks as ports, and a bar whose total is the number of ports.
\<close>

definition spec_progress :: "string \<Rightarrow> nat \<Rightarrow> nat \<Rightarrow> scan_state \<Rightarrow> bool" where
  "spec_progress host startPort endPort st =
     (filter (\<lambda>a. is_tick a \<or> is_probe a) (trace st) =
        concat (map (\<lambda>p. [Probe host p, Tick]) [startPort..<Suc endPort]) \<and>
      bar_curr st = Suc endPort - startPort \<and>
      bar_total st = int (Suc endPort - startPort))"

section \<open>Example environments\<close>

text \<open>
  A network on which exactly one port has a listener that accepts after 3 ms; every
  other port refuses after 1 ms.
\<close>

definition net_only :: "nat \<Rightarrow> net" where
  "net_only q host port = (if port = q then ConnectsAfter 3 else FailsAfter 1)"

text \<open>
  A resolver that knows two names, one with an IPv4 and one with an IPv6 address.
\<close>

definition world_example :: world where
  "world_example =
     \<lparr>dns_lookup = (\<lambda>h. if h = ''localhost'' then Some ''127.0.0.1''
                         else if h = ''ip6-localhost'' then Some ''::1'' else None),
      net_connect = net_only 2002\<rparr>"

section \<open>The derivative matcher decides the language\<close>

lemma conc_iff: "w \<in> conc A B \<longleftrightarrow> (\<exists>u v. w = u @ v \<and> u \<in> A \<and> v \<in> B)"
  by (auto simp: conc_def)

lemma concI: "u \<in> A \<Longrightarrow> v \<in> B \<Longrightarrow> u @ v \<in> conc A B"
  by (auto simp: conc_def)

lemma cons_conc_iff:
  "c # w \<in> conc A B \<longleftrightarrow>
     ([] \<in> A \<and> c # w \<in> B) \<or> (\<exists>u v. w = u @ v \<and> c # u \<in> A \<and> v \<in> B)"
proof
  assume "c # w \<in> conc A B"
  then obtain u v where uv: "c # w = u @ v" "u \<in> A" "v \<in> B"
    by (auto simp: conc_iff)
  show "([] \<in> A \<and> c # w \<in> B) \<or> (\<exists>u v. w = u @ v \<and> c # u \<in> A \<and> v \<in> B)"
  proof (cases u)
    case Nil
    with uv show ?thesis by simp
  next
    case (Cons x xs)
    with uv have "w = xs @ v" "c # xs \<in> A" by auto
    with uv(3) show ?thesis by blast
  qed
next
  assume "([] \<in> A \<and> c # w \<in> B) \<or> (\<exists>u v. w = u @ v \<and> c # u \<in> A \<and> v \<in> B)"
  then show "c # w \<in> conc A B"
  proof
    assume "[] \<in> A \<and> c # w \<in> B"
    then have "[] @ (c # w) \<in> conc A B" by (intro concI) auto
    then show ?thesis by simp
  next
    assume "\<exists>u v. w = u @ v \<and> c # u \<in> A \<and> v \<in> B"
    then obtain u v where "w = u @ v" "c # u \<in> A" "v \<in> B" by blast
    then have "(c # u) @ v \<in> conc A B" by (intro concI)
    with \<open>w = u @ v\<close> show ?thesis by simp
  qed
qed

lemma star_cons_split:
  "x \<in> star A \<Longrightarrow> x = c # w \<Longrightarrow> \<exists>u v. w = u @ v \<and> c # u \<in> A \<and> v \<in> star A"
proof (induction arbitrary: w rule: star.induct)
  case star_nil
  then show ?case by simp
next
  case (star_app u v)
  show ?case
  proof (cases u)
    case Nil
    with star_app show ?thesis by simp
  next
    case (Cons y ys)
    with star_app.prems have "w = ys @ v" "y = c" by auto
    with star_app.hyps Cons show ?thesis by blast
  qed
qed

lemma cons_star_iff:
  "c # w \<in> star A \<longleftrightarrow> (\<exists>u v. w = u @ v \<and> c # u \<in> A \<and> v \<in> star A)"
proof
  assume "c # w \<in> star A"
  then show "\<exists>u v. w = u @ v \<and> c # u \<in> A \<and> v \<in> star A"
    by (rule star_cons_split) simp
next
  assume "\<exists>u v. w = u @ v \<and> c # u \<in> A \<and> v \<in> star A"
  then obtain u v where "w = u @ v" "c # u \<in> A" "v \<in> star A" by blast
  then have "(c # u) @ v \<in> star A" by (intro star_app)
  with \<open>w = u @ v\<close> show "c # w \<in> star A" by simp
qed

lemma nullable_iff: "nullable r \<longleftrightarrow> [] \<in> lang r"
  by (induction r) (simp_all add: conc_iff star_nil)

lemma lang_deriv: "w \<in> lang (deriv c r) \<longleftrightarrow> c # w \<in> lang r"
proof (induction r arbitrary: w)
  case Never
  show ?case by simp
next
  case Empty
  show ?case by simp
next
  case (Cls rs)
  show ?case by simp
next
  case (Seq a b)
  have "w \<in> lang (deriv c (Seq a b)) \<longleftrightarrow>
        (\<exists>u v. w = u @ v \<and> c # u \<in> lang a \<and> v \<in> lang b) \<or> ([] \<in> lang a \<and> c # w \<in> lang b)"
    using Seq.IH by (auto simp: conc_iff nullable_iff)
  then show ?case
    unfolding lang.simps cons_conc_iff by blast
next
  case (Alt a b)
  then show ?case by simp
next
  case (Opt a)
  then show ?case by simp
next
  case (Star a)
  have "w \<in> lang (deriv c (Star a)) \<longleftrightarrow>
        (\<exists>u v. w = u @ v \<and> c # u \<in> lang a \<and> v \<in> star (lang a))"
    using Star.IH by (simp add: conc_iff)
  then show ?case
    unfolding lang.simps cons_star_iff .
next
  case (Plus a)
  have "w \<in> lang (deriv c (Plus a)) \<longleftrightarrow>
        (\<exists>u v. w = u @ v \<and> c # u \<in> lang a \<and> v \<in> star (lang a))"
    using Plus.IH by (simp add: conc_iff)
  moreover have "[] \<in> lang a \<and> c # w \<in> star (lang a) \<Longrightarrow>
        \<exists>u v. w = u @ v \<and> c # u \<in> lang a \<and> v \<in> star (lang a)"
    unfolding cons_star_iff by blast
  ultimately show ?case
    unfolding lang.simps cons_conc_iff by blast
qed

lemma matches_iff_lang: "matches r s \<longleftrightarrow> s \<in> lang r"
  by (induction s arbitrary: r) (simp_all add: nullable_iff lang_deriv)

section \<open>What the two patterns accept\<close>

lemma lang_lit: "lang (lit c) = {[c]}"
  by (auto simp: lit_def in_cls_def)

lemma lang_rng: "lang (rng lo hi) = {[c] | c. lo \<le> c \<and> c \<le> hi}"
  by (auto simp: rng_def in_cls_def)

lemma is_digit_code: "is_digit c \<longleftrightarrow> 48 \<le> (of_char c :: nat) \<and> (of_char c :: nat) \<le> 57"
  by (simp add: is_digit_def less_eq_char_def)

lemma OCTET_octet: "g \<in> lang OCTET \<Longrightarrow> octet g"
  unfolding OCTET_def
  by (auto simp: conc_iff lang_lit lang_rng in_cls_def octet_def Number_def digit_val_def
       is_digit_code less_eq_char_def)

lemma length_le_3_cases:
  "g \<noteq> [] \<Longrightarrow> length g \<le> 3 \<Longrightarrow> (\<exists>a. g = [a]) \<or> (\<exists>a b. g = [a, b]) \<or> (\<exists>a b c. g = [a, b, c])"
  by (cases g; cases "tl g"; cases "tl (tl g)"; cases "tl (tl (tl g))") auto

lemma octet_matches: "octet g \<Longrightarrow> matches OCTET g"
proof -
  assume o: "octet g"
  then have "g \<noteq> []" "length g \<le> 3" by (simp_all add: octet_def)
  then consider a where "g = [a]" | a b where "g = [a, b]" | a b c where "g = [a, b, c]"
    using length_le_3_cases by blast
  then show ?thesis
  proof cases
    case 1
    with o show ?thesis
      by (simp add: octet_def OCTET_def lit_def rng_def in_cls_def is_digit_def)
  next
    case 2
    with o show ?thesis
      by (simp add: octet_def OCTET_def lit_def rng_def in_cls_def is_digit_def)
  next
    case 3
    with o have d: "48 \<le> (of_char a :: nat)" "(of_char a :: nat) \<le> 57"
      "48 \<le> (of_char b :: nat)" "(of_char b :: nat) \<le> 57"
      "48 \<le> (of_char c :: nat)" "(of_char c :: nat) \<le> 57"
      by (simp_all add: octet_def is_digit_code)
    from 3 o have "Number [a, b, c] \<le> 255"
      by (simp add: octet_def)
    with d have v: "100 * (of_char a - 48) + 10 * (of_char b - 48) + (of_char c - (48::nat)) \<le> 255"
      by (simp add: Number_def digit_val_def)
    from d v show ?thesis
      unfolding 3
      by (simp add: OCTET_def lit_def rng_def in_cls_def less_eq_char_def) linarith
  qed
qed

lemma lang_OCTET: "g \<in> lang OCTET \<longleftrightarrow> octet g"
  using OCTET_octet octet_matches matches_iff_lang by blast

lemma conc_sep_iff:
  "w \<in> conc A (conc {[c]} B) \<longleftrightarrow> (\<exists>u v. w = u @ c # v \<and> u \<in> A \<and> v \<in> B)"
  by (auto simp: conc_iff)

lemma isIpCheck_iff:
  "isIpCheck s \<longleftrightarrow>
     (\<exists>a b c d. s = a @ ''.'' @ b @ ''.'' @ c @ ''.'' @ d \<and> octet a \<and> octet b \<and> octet c \<and> octet d)"
proof -
  have "s \<in> lang REGEXP_IP \<longleftrightarrow>
        (\<exists>a r1. s = a @ CHR ''.'' # r1 \<and> octet a \<and>
          (\<exists>b r2. r1 = b @ CHR ''.'' # r2 \<and> octet b \<and>
            (\<exists>c d. r2 = c @ CHR ''.'' # d \<and> octet c \<and> octet d)))"
    unfolding REGEXP_IP_def lang.simps(4) lang_lit conc_sep_iff
    by (simp add: lang_OCTET)
  also have "\<dots> \<longleftrightarrow>
        (\<exists>a b c d. s = a @ CHR ''.'' # b @ CHR ''.'' # c @ CHR ''.'' # d \<and>
           octet a \<and> octet b \<and> octet c \<and> octet d)"
    by blast
  finally show ?thesis
    by (simp add: isIpCheck_def matches_iff_lang)
qed

lemma split_on_not_Nil: "split_on sep s \<noteq> []"
  by (induction s) (auto split: list.splits)

lemma split_on_no_sep: "sep \<notin> set a \<Longrightarrow> split_on sep a = [a]"
  by (induction a) auto

lemma split_on_append:
  "sep \<notin> set a \<Longrightarrow> split_on sep (a @ sep # rest) = a # split_on sep rest"
  by (induction a) auto

lemma split_on_Cons:
  "split_on sep s = g # gs \<Longrightarrow>
     sep \<notin> set g \<and> (if gs = [] then s = g else \<exists>rest. s = g @ sep # rest \<and> split_on sep rest = gs)"
proof (induction s arbitrary: g gs)
  case Nil
  then show ?case by simp
next
  case (Cons c cs)
  show ?case
  proof (cases "c = sep")
    case True
    with Cons.prems have "g = []" "gs = split_on sep cs" by auto
    with True show ?thesis by (simp add: split_on_not_Nil)
  next
    case False
    obtain h hs where h: "split_on sep cs = h # hs"
      using split_on_not_Nil by (cases "split_on sep cs") auto
    with False Cons.prems have g: "g = c # h" "gs = hs" by auto
    from Cons.IH[OF h] False g show ?thesis by auto
  qed
qed

lemma is_digit_not_dot: "is_digit c \<Longrightarrow> c \<noteq> CHR ''.''"
  by (auto simp: is_digit_def)

lemma is_digit_not_hyphen: "is_digit c \<Longrightarrow> c \<noteq> CHR ''-''"
  by (auto simp: is_digit_def)

lemma digits_no_dot: "list_all is_digit g \<Longrightarrow> CHR ''.'' \<notin> set g"
  by (auto simp: list_all_iff dest: is_digit_not_dot)

lemma digits_no_hyphen: "list_all is_digit g \<Longrightarrow> CHR ''-'' \<notin> set g"
  by (auto simp: list_all_iff dest: is_digit_not_hyphen)

lemma split_four:
  assumes "CHR ''.'' \<notin> set a" "CHR ''.'' \<notin> set b" "CHR ''.'' \<notin> set c" "CHR ''.'' \<notin> set d"
  shows "split_on CHR ''.'' (a @ ''.'' @ b @ ''.'' @ c @ ''.'' @ d) = [a, b, c, d]"
  using assms by (simp add: split_on_append split_on_no_sep)

lemma split_four_conv:
  assumes "split_on sep s = [a, b, c, d]"
  shows "s = a @ sep # b @ sep # c @ sep # d"
proof -
  from split_on_Cons[OF assms] obtain r1 where r1: "s = a @ sep # r1" "split_on sep r1 = [b, c, d]"
    by auto
  from split_on_Cons[OF r1(2)] obtain r2 where r2: "r1 = b @ sep # r2" "split_on sep r2 = [c, d]"
    by auto
  from split_on_Cons[OF r2(2)] obtain r3 where r3: "r2 = c @ sep # r3" "split_on sep r3 = [d]"
    by auto
  from split_on_Cons[OF r3(2)] have "r3 = d" by simp
  with r1 r2 r3 show ?thesis by simp
qed

lemma length4: "length gs = 4 \<longleftrightarrow> (\<exists>a b c d. gs = [a, b, c, d])"
  by (cases gs; cases "tl gs"; cases "tl (tl gs)"; cases "tl (tl (tl gs))"; cases "tl (tl (tl (tl gs)))") auto

lemma isIpCheck_split:
  "isIpCheck s \<longleftrightarrow> (length (split_on CHR ''.'' s) = 4 \<and> list_all octet (split_on CHR ''.'' s))"
proof
  assume "isIpCheck s"
  then obtain a b c d where s: "s = a @ ''.'' @ b @ ''.'' @ c @ ''.'' @ d"
    and o: "octet a" "octet b" "octet c" "octet d"
    unfolding isIpCheck_iff by blast
  from o have "split_on CHR ''.'' s = [a, b, c, d]"
    unfolding s by (intro split_four) (simp_all add: octet_def digits_no_dot)
  with o show "length (split_on CHR ''.'' s) = 4 \<and> list_all octet (split_on CHR ''.'' s)"
    by simp
next
  assume r: "length (split_on CHR ''.'' s) = 4 \<and> list_all octet (split_on CHR ''.'' s)"
  then obtain a b c d where g: "split_on CHR ''.'' s = [a, b, c, d]"
    unfolding length4 by blast
  from split_four_conv[OF g] have "s = a @ ''.'' @ b @ ''.'' @ c @ ''.'' @ d" by simp
  moreover from r g have "octet a" "octet b" "octet c" "octet d" by simp_all
  ultimately show "isIpCheck s" unfolding isIpCheck_iff by blast
qed

lemma star_digit_iff: "w \<in> star (lang digit) \<longleftrightarrow> list_all is_digit w"
proof
  assume "w \<in> star (lang digit)"
  then show "list_all is_digit w"
    by (induction rule: star.induct) (auto simp: digit_def lang_rng is_digit_def)
next
  assume "list_all is_digit w"
  then show "w \<in> star (lang digit)"
  proof (induction w)
    case Nil
    show ?case by (rule star_nil)
  next
    case (Cons c cs)
    then have "[c] \<in> lang digit" "cs \<in> star (lang digit)"
      by (simp_all add: digit_def lang_rng is_digit_def)
    then have "[c] @ cs \<in> star (lang digit)" by (rule star_app)
    then show ?case by simp
  qed
qed

lemma lang_Plus_digit: "w \<in> lang (Plus digit) \<longleftrightarrow> decimal_group w"
proof (cases w)
  case Nil
  then show ?thesis
    by (simp add: conc_iff decimal_group_def digit_def lang_rng)
next
  case (Cons c cs)
  have "c # cs \<in> lang (Plus digit) \<longleftrightarrow> [c] \<in> lang digit \<and> cs \<in> star (lang digit)"
    unfolding lang.simps cons_conc_iff
    by (auto simp: digit_def lang_rng)
  with Cons show ?thesis
    by (simp add: star_digit_iff decimal_group_def) (simp add: digit_def lang_rng is_digit_def)
qed

lemma isPortRangeCheck_iff:
  "isPortRangeCheck s \<longleftrightarrow>
     (\<exists>a b. s = a @ ''-'' @ b \<and> decimal_group a \<and> decimal_group b)"
  unfolding isPortRangeCheck_def matches_iff_lang REGEXP_PORT_RANGE_def lang.simps(4)
    lang_lit conc_sep_iff lang_Plus_digit
  by simp

lemma split_range:
  assumes "decimal_group a" "decimal_group b"
  shows "split_on CHR ''-'' (a @ ''-'' @ b) = [a, b]"
  using assms by (simp add: decimal_group_def split_on_append split_on_no_sep digits_no_hyphen)

lemma isPortRangeCheck_split:
  "isPortRangeCheck s \<longleftrightarrow>
     (\<exists>a b. split_on CHR ''-'' s = [a, b] \<and> decimal_group a \<and> decimal_group b)"
proof
  assume "isPortRangeCheck s"
  then obtain a b where "s = a @ ''-'' @ b" "decimal_group a" "decimal_group b"
    unfolding isPortRangeCheck_iff by blast
  then show "\<exists>a b. split_on CHR ''-'' s = [a, b] \<and> decimal_group a \<and> decimal_group b"
    using split_range by blast
next
  assume "\<exists>a b. split_on CHR ''-'' s = [a, b] \<and> decimal_group a \<and> decimal_group b"
  then obtain a b where g: "split_on CHR ''-'' s = [a, b]" and d: "decimal_group a" "decimal_group b"
    by blast
  from split_on_Cons[OF g] obtain r where r: "s = a @ CHR ''-'' # r" "split_on CHR ''-'' r = [b]"
    by auto
  from split_on_Cons[OF r(2)] have "r = b" by simp
  with r d show "isPortRangeCheck s"
    unfolding isPortRangeCheck_iff by auto
qed

lemma Number_leading_zero: "Number (CHR ''0'' # g) = Number g"
  by (simp add: Number_def digit_val_def)

lemma octet_leading_zero: "octet g \<Longrightarrow> length g < 3 \<Longrightarrow> octet (CHR ''0'' # g)"
  by (simp add: octet_def Number_leading_zero is_digit_def)

section \<open>The IPv4 validator\<close>

text \<open>
  C3, as amended.  \<open>isIpCheck\<close> accepts a string exactly when it consists of four
  dot-separated groups, each of one to three decimal digits with a numeric value in
  \<open>[0, 255]\<close>.  In particular a string with fewer or more than four groups is
  rejected, and so is a string with a group whose value exceeds 255.
\<close>

theorem isIpCheck_four_octets:
  "(isIpCheck s \<longleftrightarrow>
      length (split_on CHR ''.'' s) = 4 \<and> list_all octet (split_on CHR ''.'' s)) \<and>
   (length (split_on CHR ''.'' s) \<noteq> 4 \<longrightarrow> \<not> isIpCheck s) \<and>
   (list_ex (\<lambda>g. 255 < Number g) (split_on CHR ''.'' s) \<longrightarrow> \<not> isIpCheck s)"
proof -
  have "\<not> list_all octet gs" if "list_ex (\<lambda>g. 255 < Number g) gs" for gs
  proof -
    from that obtain g where "g \<in> set gs" "255 < Number g"
      by (auto simp: list_ex_iff)
    then have "g \<in> set gs" "\<not> octet g"
      by (simp_all add: octet_def)
    then show ?thesis
      by (auto simp: list_all_iff)
  qed
  then show ?thesis
    unfolding isIpCheck_split by blast
qed

theorem isIpCheck_four_octets_witness:
  "isIpCheck ''192.168.1.1'' \<and>
   length (split_on CHR ''.'' ''1.2.3'') \<noteq> 4 \<and> \<not> isIpCheck ''1.2.3'' \<and>
   length (split_on CHR ''.'' ''1.2.3.4.5'') \<noteq> 4 \<and> \<not> isIpCheck ''1.2.3.4.5'' \<and>
   list_ex (\<lambda>g. 255 < Number g) (split_on CHR ''.'' ''256.1.1.1'') \<and> \<not> isIpCheck ''256.1.1.1''"
  using isIpCheck_four_octets [of "''192.168.1.1''"] isIpCheck_four_octets [of "''1.2.3''"]
    isIpCheck_four_octets [of "''1.2.3.4.5''"] isIpCheck_four_octets [of "''256.1.1.1''"]
  by (simp add: octet_def is_digit_def Number_def digit_val_def)

text \<open>
  C3, as stated, fails: \<open>0001.2.3.4\<close> consists of four dot-separated decimal groups
  with the values 1, 2, 3 and 4, and \<open>isIpCheck\<close> rejects it, because a group of the
  pattern holds at most three digits.
\<close>

theorem isIpCheck_four_digit_group_counterexample:
  "spec_isValidIPv4 ''0001.2.3.4'' \<and> \<not> isIpCheck ''0001.2.3.4''"
  by (simp add: spec_isValidIPv4_def decimal_group_def is_digit_def Number_def digit_val_def
      isIpCheck_split octet_def)

text \<open>
  C8.  Leading zeros are not rejected.  A group matches the group pattern of
  \<open>REGEXP_IP\<close> exactly when it is an \<open>octet\<close> (one to three digits, value at most 255,
  leading zeros allowed); four such groups joined by dots are accepted; and putting a
  zero in front of a group of fewer than three digits gives such a group again.
\<close>

theorem isIpCheck_leading_zeros:
  "(octet a \<and> octet b \<and> octet c \<and> octet d \<longrightarrow>
      isIpCheck (a @ ''.'' @ b @ ''.'' @ c @ ''.'' @ d)) \<and>
   (matches OCTET g \<longleftrightarrow> octet g) \<and>
   (octet g \<and> length g < 3 \<longrightarrow> octet (CHR ''0'' # g))"
  using isIpCheck_iff lang_OCTET matches_iff_lang octet_leading_zero by blast

theorem isIpCheck_leading_zeros_witness:
  "octet ''01'' \<and> octet ''2'' \<and> octet ''3'' \<and> octet ''4'' \<and> isIpCheck ''01.2.3.4'' \<and>
   octet ''1'' \<and> length ''1'' < 3 \<and> matches OCTET ''1''"
  using isIpCheck_leading_zeros [of "''01''" "''2''" "''3''" "''4''" "''1''"]
  by (simp add: octet_def is_digit_def Number_def digit_val_def)

section \<open>The port-range validator\<close>

text \<open>
  C4.  \<open>isPortRangeCheck\<close> accepts exactly the strings \<open>digits-digits\<close>: a non-empty
  string of decimal digits, a hyphen, and a non-empty string of decimal digits.
  Nothing else is checked: any two such digit strings are accepted, whatever their
  numeric values, so neither the order of the two numbers nor the bound 65535 plays
  a part.
\<close>

theorem isPortRangeCheck_digits_hyphen_digits:
  "(isPortRangeCheck s \<longleftrightarrow>
      (\<exists>a b. s = a @ ''-'' @ b \<and> decimal_group a \<and> decimal_group b)) \<and>
   (decimal_group x \<and> decimal_group y \<longrightarrow> isPortRangeCheck (x @ ''-'' @ y))"
proof -
  have "isPortRangeCheck (x @ ''-'' @ y)" if "decimal_group x \<and> decimal_group y"
    unfolding isPortRangeCheck_iff using that by blast
  then show ?thesis
    using isPortRangeCheck_iff[of s] by blast
qed

theorem isPortRangeCheck_examples:
  "isPortRangeCheck ''1-65535'' \<and> isPortRangeCheck ''2000-2000'' \<and>
   isPortRangeCheck ''2-1'' \<and> Number ''1'' < Number ''2'' \<and>
   isPortRangeCheck ''99999-100000'' \<and> 65535 < Number ''99999'' \<and>
   \<not> isPortRangeCheck ''abc-1''"
proof -
  have d: "decimal_group ''1''" "decimal_group ''65535''" "decimal_group ''2000''"
    "decimal_group ''2''" "decimal_group ''99999''" "decimal_group ''100000''"
    by (simp_all add: decimal_group_def is_digit_def)
  have "isPortRangeCheck (''1'' @ ''-'' @ ''65535'')"
    using isPortRangeCheck_digits_hyphen_digits [of _ "''1''" "''65535''"] d by blast
  moreover have "isPortRangeCheck (''2000'' @ ''-'' @ ''2000'')"
    using isPortRangeCheck_digits_hyphen_digits [of _ "''2000''" "''2000''"] d by blast
  moreover have "isPortRangeCheck (''2'' @ ''-'' @ ''1'')"
    using isPortRangeCheck_digits_hyphen_digits [of _ "''2''" "''1''"] d by blast
  moreover have "isPortRangeCheck (''99999'' @ ''-'' @ ''100000'')"
    using isPortRangeCheck_digits_hyphen_digits [of _ "''99999''" "''100000''"] d by blast
  moreover have "\<not> decimal_group ''abc''"
    by (simp add: decimal_group_def is_digit_def)
  then have "\<not> isPortRangeCheck ''abc-1''"
    using isPortRangeCheck_digits_hyphen_digits [of "''abc-1''"] split_range
    by (auto simp: isPortRangeCheck_split)
  moreover have "Number ''1'' < Number ''2''" "65535 < Number ''99999''"
    by (simp_all add: Number_def digit_val_def)
  ultimately show ?thesis by simp
qed


section \<open>The probe\<close>

lemma on_event_settled:
  "settled st \<noteq> Pending \<Longrightarrow> settled (on_event port st e) = settled st"
  by (cases e) (simp_all add: resolve_def destroy_def)

lemma foldl_on_event_settled:
  "settled st \<noteq> Pending \<Longrightarrow> settled (foldl (on_event port) st es) = settled st"
  by (induction es arbitrary: st) (simp_all add: on_event_settled)

lemma scanPort_first_event:
  assumes "socket_connect 2000 port (nw host port) = Emits (e # es)"
  shows "scanPort nw host port = Resolved (case e of Connect \<Rightarrow> JNum port | _ \<Rightarrow> JNull)"
proof -
  let ?st0 = "\<lparr>settled = Pending, destroyed = False, timeout_ms = 2000\<rparr>"
  have "settled (on_event port ?st0 e) = Resolved (case e of Connect \<Rightarrow> JNum port | _ \<Rightarrow> JNull)"
    by (cases e) (simp_all add: resolve_def destroy_def)
  moreover from this
  have "settled (foldl (on_event port) (on_event port ?st0 e) es) = settled (on_event port ?st0 e)"
    by (intro foldl_on_event_settled) simp
  ultimately show ?thesis
    using assms by (simp add: scanPort_def)
qed

lemma scanPort_responds:
  assumes "responds nw host port"
  shows "scanPort nw host port = Resolved (if accepts nw host port then JNum port else JNull)"
proof -
  from assms obtain e es where e: "socket_connect 2000 port (nw host port) = Emits (e # es)"
    by (auto simp: responds_def split: conn.splits list.splits)
  have "accepts nw host port \<longleftrightarrow> e = Connect"
    using e by (cases e) (simp_all add: accepts_def)
  with e scanPort_first_event[of port nw host e es] show ?thesis
    by (cases e) simp_all
qed

lemma scanPort_open_iff:
  assumes "responds nw host port"
  shows "scanPort nw host port = Resolved (JNum port) \<longleftrightarrow> accepts nw host port"
  using assms scanPort_responds[of nw host port] by simp

text \<open>
  Every port that \<^verbatim>\<open>connect\<close> takes answers, since the timeout fires when nothing
  else does; a port above 65535 makes the executor throw.
\<close>

lemma responds_iff: "responds nw host port \<longleftrightarrow> port \<le> 65535"
  by (cases "nw host port") (simp_all add: responds_def socket_connect_def)

lemma accepts_iff:
  "accepts nw host port \<longleftrightarrow> port \<le> 65535 \<and> (\<exists>t. nw host port = ConnectsAfter t \<and> t < 2000)"
  by (cases "nw host port") (simp_all add: accepts_def socket_connect_def)

lemma accepts_net_only: "accepts (net_only q) host port \<longleftrightarrow> port = q \<and> port \<le> 65535"
  by (auto simp: accepts_iff net_only_def)

lemma scanPort_rejects: "65535 < port \<Longrightarrow> scanPort nw host port = Rejected"
  by (simp add: scanPort_def socket_connect_def)

lemma scanPort_settles: "scanPort nw host port \<noteq> Pending"
proof (cases "port \<le> 65535")
  case True
  then show ?thesis
    using scanPort_responds[of nw host port] by (simp add: responds_iff)
next
  case False
  then show ?thesis
    by (simp add: scanPort_rejects)
qed

text \<open>
  C2, as amended.  For every host and every port up to 65535 the probe settles by
  resolving, with exactly one of three outcomes: the port number when the connection
  is established before the 2000 ms of the socket's timeout have elapsed, \<^verbatim>\<open>null\<close>
  when the timeout comes first, \<^verbatim>\<open>null\<close> when the attempt fails.  Its promise is
  never rejected and never left pending.  For a port above 65535 the call of
  \<^verbatim>\<open>connect\<close> throws and the promise is rejected.
\<close>

theorem scanPort_three_outcomes:
  "(port \<le> 65535 \<longrightarrow>
      scanPort nw host port =
        (case nw host port of
           ConnectsAfter t \<Rightarrow> if t < 2000 then Resolved (JNum port) else Resolved JNull
         | FailsAfter t \<Rightarrow> Resolved JNull
         | NoAnswer \<Rightarrow> Resolved JNull) \<and>
      scanPort nw host port \<noteq> Rejected \<and> scanPort nw host port \<noteq> Pending) \<and>
   (65535 < port \<longrightarrow> scanPort nw host port = Rejected)"
proof -
  have "scanPort nw host port =
        (case nw host port of
           ConnectsAfter t \<Rightarrow> if t < 2000 then Resolved (JNum port) else Resolved JNull
         | FailsAfter t \<Rightarrow> Resolved JNull
         | NoAnswer \<Rightarrow> Resolved JNull)" if ok: "port \<le> 65535"
  proof (cases "nw host port")
    case (ConnectsAfter t)
    with ok have "socket_connect 2000 port (nw host port) = Emits [if t < 2000 then Connect else Timeout]"
      by (simp add: socket_connect_def)
    with scanPort_first_event[of port nw host "if t < 2000 then Connect else Timeout" "[]"] ConnectsAfter
    show ?thesis by simp
  next
    case (FailsAfter t)
    with ok have "socket_connect 2000 port (nw host port) = Emits [if t < 2000 then Error else Timeout]"
      by (simp add: socket_connect_def)
    with scanPort_first_event[of port nw host "if t < 2000 then Error else Timeout" "[]"] FailsAfter
    show ?thesis by simp
  next
    case NoAnswer
    with ok have "socket_connect 2000 port (nw host port) = Emits [Timeout]"
      by (simp add: socket_connect_def)
    with scanPort_first_event[of port nw host Timeout "[]"] NoAnswer
    show ?thesis by simp
  qed
  moreover from this have "scanPort nw host port \<noteq> Rejected" if "port \<le> 65535"
    using that by (cases "nw host port") simp_all
  ultimately show ?thesis
    using scanPort_settles[of nw host port] scanPort_rejects[of port nw host] by blast
qed

theorem scanPort_three_outcomes_witness:
  "scanPort (\<lambda>h p. ConnectsAfter 3) ''10.0.0.1'' 80 = Resolved (JNum 80) \<and>
   scanPort (\<lambda>h p. ConnectsAfter 2500) ''10.0.0.1'' 80 = Resolved JNull \<and>
   scanPort (\<lambda>h p. FailsAfter 1) ''10.0.0.1'' 80 = Resolved JNull \<and>
   scanPort (\<lambda>h p. NoAnswer) ''10.0.0.1'' 65535 = Resolved JNull"
  using scanPort_three_outcomes [of 80 "\<lambda>h p. ConnectsAfter 3" "''10.0.0.1''"]
    scanPort_three_outcomes [of 80 "\<lambda>h p. ConnectsAfter 2500" "''10.0.0.1''"]
    scanPort_three_outcomes [of 80 "\<lambda>h p. FailsAfter 1" "''10.0.0.1''"]
    scanPort_three_outcomes [of 65535 "\<lambda>h p. NoAnswer" "''10.0.0.1''"]
  by simp

text \<open>
  C2, as stated, fails for a port above 65535, which \<open>isPortRangeCheck\<close> lets
  through: the promise of the probe of port 65536 is rejected.
\<close>

theorem scanPort_bad_port_counterexample:
  "isPortRangeCheck ''65536-65536'' \<and> Number ''65536'' = 65536 \<and>
   scanPort (net_only 2002) ''127.0.0.1'' 65536 = Rejected"
  by (simp add: isPortRangeCheck_split decimal_group_def is_digit_def Number_def digit_val_def
      scanPort_rejects)


section \<open>The loop of the orchestrator\<close>

lemma scan_loop_done:
  "\<not> port \<le> endPort \<Longrightarrow> scan_loop nw host port endPort st = (Fulfilled, st)"
  by (subst scan_loop.simps) simp

lemma scan_loop_stalled:
  "port \<le> endPort \<Longrightarrow> scanPort nw host port = Pending \<Longrightarrow>
   scan_loop nw host port endPort st = (Stalled, emit (Probe host port) (tick st))"
  by (subst scan_loop.simps) simp

lemma scan_loop_rejected:
  "port \<le> endPort \<Longrightarrow> scanPort nw host port = Rejected \<Longrightarrow>
   scan_loop nw host port endPort st = (Thrown SocketFailure, emit (Probe host port) (tick st))"
  by (subst scan_loop.simps) simp

lemma scan_loop_resolved:
  "port \<le> endPort \<Longrightarrow> scanPort nw host port = Resolved v \<Longrightarrow>
   scan_loop nw host port endPort st =
     scan_loop nw host (port + 1) endPort
       (if v \<noteq> JNull \<and> truthy v
        then (emit EraseLine (emit (Settled port v) (emit (Probe host port) (tick st))))
               \<lparr>openPorts := openPorts st @ [port]\<rparr>
        else emit (Settled port v) (emit (Probe host port) (tick st)))"
  by (subst scan_loop.simps) (simp add: emit_def tick_def)

lemma scan_loop_complete:
  "(\<forall>p. port \<le> p \<and> p \<le> endPort \<longrightarrow> responds nw host p) \<Longrightarrow>
   scan_loop nw host port endPort st =
     (Fulfilled,
      st\<lparr>trace := trace st @ concat (map (iteration nw host) [port..<Suc endPort]),
         openPorts := openPorts st @ filter (\<lambda>p. p \<noteq> 0 \<and> accepts nw host p) [port..<Suc endPort],
         bar_curr := bar_curr st + (Suc endPort - port)\<rparr>)"
proof (induction nw host port endPort st rule: scan_loop.induct)
  case (1 nw host port endPort st)
  show ?case
  proof (cases "port \<le> endPort")
    case False
    then show ?thesis by (simp add: scan_loop_done)
  next
    case True
    define v where "v = (if accepts nw host port then JNum port else JNull)"
    define st1 where "st1 = emit (Probe host port) (tick st)"
    define st2 where "st2 = emit (Settled port v) st1"
    define st3 where "st3 = (if v \<noteq> JNull \<and> truthy v
                then (emit EraseLine st2)\<lparr>openPorts := openPorts st2 @ [port]\<rparr> else st2)"
    from True "1.prems" have "responds nw host port" by simp
    then have sp: "scanPort nw host port = Resolved v"
      using scanPort_responds[of nw host port] by (simp add: v_def)
    from "1.prems" have rest: "\<forall>p. port + 1 \<le> p \<and> p \<le> endPort \<longrightarrow> responds nw host p"
      by simp
    have IH: "scan_loop nw host (port + 1) endPort st3 =
       (Fulfilled,
        st3\<lparr>trace := trace st3 @ concat (map (iteration nw host) [port + 1..<Suc endPort]),
           openPorts := openPorts st3 @
             filter (\<lambda>p. p \<noteq> 0 \<and> accepts nw host p) [port + 1..<Suc endPort],
           bar_curr := bar_curr st3 + (Suc endPort - (port + 1))\<rparr>)"
      by (rule "1.IH"[OF True st1_def sp st2_def st3_def rest])
    have st3: "st3 = st\<lparr>trace := trace st @ iteration nw host port,
                        openPorts := openPorts st @ filter (\<lambda>p. p \<noteq> 0 \<and> accepts nw host p) [port],
                        bar_curr := bar_curr st + 1\<rparr>"
      by (simp add: st3_def st2_def st1_def v_def iteration_def emit_def tick_def)
    have upt: "[port..<Suc endPort] = port # [port + 1..<Suc endPort]"
      using True by (simp add: upt_conv_Cons)
    have "scan_loop nw host port endPort st = scan_loop nw host (port + 1) endPort st3"
      by (subst scan_loop.simps) (simp add: True sp st3_def st2_def st1_def Let_def)
    also note IH
    finally show ?thesis
      using True unfolding upt st3
      by (simp del: upt_Suc)
  qed
qed

lemma scanPort_cases:
  "scanPort nw host port = Rejected \<or> scanPort nw host port = Pending \<or>
   scanPort nw host port = Resolved JNull \<or> scanPort nw host port = Resolved (JNum port)"
proof (cases "port \<le> 65535")
  case True
  then show ?thesis
    using scanPort_responds[of nw host port] by (simp add: responds_iff)
next
  case False
  then show ?thesis
    by (simp add: scanPort_rejects)
qed

lemma recorded_nonzero:
  assumes "scanPort nw host port = Resolved v" "v \<noteq> JNull \<and> truthy v"
  shows "port \<noteq> 0"
  using assms scanPort_cases[of nw host port] by auto

text \<open>What the loop does on any network, however it ends.\<close>

lemma scan_loop_general:
  "\<exists>ext ps n.
     snd (scan_loop nw host port endPort st) =
       st\<lparr>trace := trace st @ ext, openPorts := openPorts st @ ps, bar_curr := bar_curr st + n\<rparr> \<and>
     list_all (loop_action host) ext \<and> 0 \<notin> set ps \<and> n \<le> Suc endPort - port \<and>
     filter (\<lambda>a. is_tick a \<or> is_probe a) ext =
       concat (map (\<lambda>p. [Tick, Probe host p]) [port..<port + n])"
proof (induction nw host port endPort st rule: scan_loop.induct)
  case (1 nw host port endPort st)
  let ?P = "\<lambda>st' ext ps n.
     st' = st\<lparr>trace := trace st @ ext, openPorts := openPorts st @ ps, bar_curr := bar_curr st + n\<rparr> \<and>
     list_all (loop_action host) ext \<and> 0 \<notin> set ps \<and> n \<le> Suc endPort - port \<and>
     filter (\<lambda>a. is_tick a \<or> is_probe a) ext =
       concat (map (\<lambda>p. [Tick, Probe host p]) [port..<port + n])"
  show ?case
  proof (cases "port \<le> endPort")
    case False
    then have "?P (snd (scan_loop nw host port endPort st)) [] [] 0"
      by (simp add: scan_loop_done)
    then show ?thesis by blast
  next
    case True
    define st1 where "st1 = emit (Probe host port) (tick st)"
    have st1: "?P st1 [Tick, Probe host port] [] 1"
      using True by (simp add: st1_def emit_def tick_def)
    show ?thesis
    proof (cases "scanPort nw host port")
      case Pending
      with True st1 have "?P (snd (scan_loop nw host port endPort st)) [Tick, Probe host port] [] 1"
        by (simp add: scan_loop_stalled st1_def)
      then show ?thesis by blast
    next
      case Rejected
      with True st1 have "?P (snd (scan_loop nw host port endPort st)) [Tick, Probe host port] [] 1"
        by (simp add: scan_loop_rejected st1_def)
      then show ?thesis by blast
    next
      case (Resolved v)
      define st2 where "st2 = emit (Settled port v) st1"
      define st3 where "st3 = (if v \<noteq> JNull \<and> truthy v
                  then (emit EraseLine st2)\<lparr>openPorts := openPorts st2 @ [port]\<rparr> else st2)"
      define e1 where "e1 = [Tick, Probe host port, Settled port v] @
                  (if v \<noteq> JNull \<and> truthy v then [EraseLine] else [])"
      define p1 where "p1 = (if v \<noteq> JNull \<and> truthy v then [port] else [])"
      have st3: "st3 = st\<lparr>trace := trace st @ e1, openPorts := openPorts st @ p1,
                          bar_curr := bar_curr st + 1\<rparr>"
        by (simp add: st3_def st2_def st1_def e1_def p1_def emit_def tick_def)
      have p1: "0 \<notin> set p1"
        using recorded_nonzero[OF Resolved] by (auto simp: p1_def)
      have e1: "list_all (loop_action host) e1"
        "filter (\<lambda>a. is_tick a \<or> is_probe a) e1 = [Tick, Probe host port]"
        by (simp_all add: e1_def)
      from "1.IH"[OF True st1_def Resolved st2_def st3_def]
      obtain ext ps n where IH:
        "snd (scan_loop nw host (port + 1) endPort st3) =
           st3\<lparr>trace := trace st3 @ ext, openPorts := openPorts st3 @ ps,
               bar_curr := bar_curr st3 + n\<rparr>"
        "list_all (loop_action host) ext" "0 \<notin> set ps" "n \<le> Suc endPort - (port + 1)"
        "filter (\<lambda>a. is_tick a \<or> is_probe a) ext =
           concat (map (\<lambda>p. [Tick, Probe host p]) [port + 1..<port + 1 + n])"
        by blast
      have step: "scan_loop nw host port endPort st = scan_loop nw host (port + 1) endPort st3"
        by (subst scan_loop.simps) (simp add: True Resolved st3_def st2_def st1_def Let_def)
      have upt: "[port..<port + (n + 1)] = port # [port + 1..<port + 1 + n]"
        by (simp add: upt_conv_Cons)
      have "snd (scan_loop nw host port endPort st) =
              st3\<lparr>trace := trace st3 @ ext, openPorts := openPorts st3 @ ps,
                  bar_curr := bar_curr st3 + n\<rparr>"
        by (simp only: step IH(1))
      then have res: "snd (scan_loop nw host port endPort st) =
              st\<lparr>trace := trace st @ (e1 @ ext), openPorts := openPorts st @ (p1 @ ps),
                 bar_curr := bar_curr st + (n + 1)\<rparr>"
        by (simp add: st3)
      have bound: "n + 1 \<le> Suc endPort - port"
        using True IH(4) by arith
      have proj: "filter (\<lambda>a. is_tick a \<or> is_probe a) (e1 @ ext) =
              concat (map (\<lambda>p. [Tick, Probe host p]) [port..<port + (n + 1)])"
        unfolding upt using e1(2) IH(5) by simp
      have "?P (snd (scan_loop nw host port endPort st)) (e1 @ ext) (p1 @ ps) (n + 1)"
        using res bound proj IH(2,3) p1 e1(1) by simp
      then show ?thesis by blast
    qed
  qed
qed


section \<open>The orchestrator\<close>

lemma scanPorts_complete:
  assumes "\<forall>p. startPort \<le> p \<and> p \<le> endPort \<longrightarrow> responds nw host p"
  shows "scanPorts nw host startPort endPort =
    (Fulfilled,
     \<lparr>trace = [ScanStart host startPort endPort, BarCreate (int endPort - int startPort)] @
              concat (map (iteration nw host) [startPort..<Suc endPort]) @
              [Report (filter (\<lambda>p. p \<noteq> 0 \<and> accepts nw host p) [startPort..<Suc endPort])],
      openPorts = filter (\<lambda>p. p \<noteq> 0 \<and> accepts nw host p) [startPort..<Suc endPort],
      bar_total = int endPort - int startPort,
      bar_curr = Suc endPort - startPort\<rparr>)"
  unfolding scanPorts_def Let_def scan_loop_complete[OF assms]
  by (simp add: emit_def)

lemma scanPorts_general:
  "\<exists>ext ps n.
     snd (scanPorts nw host startPort endPort) =
       \<lparr>trace = [ScanStart host startPort endPort, BarCreate (int endPort - int startPort)] @ ext @
                (if fst (scanPorts nw host startPort endPort) = Fulfilled then [Report ps] else []),
        openPorts = ps,
        bar_total = int endPort - int startPort,
        bar_curr = n\<rparr> \<and>
     list_all (loop_action host) ext \<and> 0 \<notin> set ps \<and> n \<le> Suc endPort - startPort \<and>
     filter (\<lambda>a. is_tick a \<or> is_probe a) ext =
       concat (map (\<lambda>p. [Tick, Probe host p]) [startPort..<startPort + n])"
proof -
  define st0 where "st0 = \<lparr>trace = [ScanStart host startPort endPort,
                           BarCreate (int endPort - int startPort)],
                 openPorts = [],
                 bar_total = int endPort - int startPort,
                 bar_curr = 0\<rparr>"
  obtain r st where loop: "scan_loop nw host startPort endPort st0 = (r, st)"
    by (cases "scan_loop nw host startPort endPort st0")
  from scan_loop_general[of nw host startPort endPort st0] loop
  obtain ext ps n where g:
    "st = st0\<lparr>trace := trace st0 @ ext, openPorts := openPorts st0 @ ps,
              bar_curr := bar_curr st0 + n\<rparr>"
    "list_all (loop_action host) ext" "0 \<notin> set ps" "n \<le> Suc endPort - startPort"
    "filter (\<lambda>a. is_tick a \<or> is_probe a) ext =
       concat (map (\<lambda>p. [Tick, Probe host p]) [startPort..<startPort + n])"
    by auto
  have sp: "scanPorts nw host startPort endPort =
      (case (r, st) of (Fulfilled, st) \<Rightarrow> (Fulfilled, emit (Report (openPorts st)) st)
                     | (r, st) \<Rightarrow> (r, st))"
    by (simp add: scanPorts_def st0_def[symmetric] loop)
  have "snd (scanPorts nw host startPort endPort) =
       \<lparr>trace = [ScanStart host startPort endPort, BarCreate (int endPort - int startPort)] @ ext @
                (if fst (scanPorts nw host startPort endPort) = Fulfilled then [Report ps] else []),
        openPorts = ps,
        bar_total = int endPort - int startPort,
        bar_curr = n\<rparr>"
    unfolding sp by (cases r) (simp_all add: g(1) st0_def emit_def)
  with g(2-5) show ?thesis by blast
qed

lemma net_events_iteration:
  "filter is_net_event (iteration nw host p) =
     [Probe host p, Settled p (if accepts nw host p then JNum p else JNull)]"
  by (simp add: iteration_def)

lemma ticks_probes_iteration:
  "filter (\<lambda>a. is_tick a \<or> is_probe a) (iteration nw host p) = [Tick, Probe host p]"
  by (simp add: iteration_def)

lemma filter_concat_map:
  "filter P (concat (map f xs)) = concat (map (\<lambda>x. filter P (f x)) xs)"
  by (induction xs) simp_all

lemma reports_iteration: "filter is_report (concat (map (iteration nw host) xs)) = []"
  by (induction xs) (simp_all add: iteration_def)

lemma length_concat_pairs: "length (concat (map (\<lambda>p. [f p, g p]) xs)) = 2 * length xs"
  by (induction xs) simp_all

lemma ticks_concat_pairs:
  "filter is_tick (concat (map (\<lambda>p. [Tick, Probe host p]) xs)) = map (\<lambda>p. Tick) xs"
  by (induction xs) simp_all

lemma probes_concat_pairs:
  "filter is_probe (concat (map (\<lambda>p. [Tick, Probe host p]) xs)) = map (Probe host) xs"
  by (induction xs) simp_all

lemma filter_filter_ticks:
  "filter is_tick tr = filter is_tick (filter (\<lambda>a. is_tick a \<or> is_probe a) tr)"
  "filter is_probe tr = filter is_probe (filter (\<lambda>a. is_tick a \<or> is_probe a) tr)"
  by (induction tr) auto

text \<open>
  A scan that stays inside the port space, on any network: it completes; the ports are
  probed from \<open>startPort\<close> to \<open>endPort\<close> inclusive in ascending order, each probe
  settling before the next one is issued; and the one list it reports holds, in
  ascending order, the ports other than 0 whose probe resolved with the port number.
\<close>

lemma scanPorts_within_port_space:
  assumes "endPort \<le> 65535"
  shows "fst (scanPorts nw host startPort endPort) = Fulfilled \<and>
    filter is_net_event (trace (snd (scanPorts nw host startPort endPort))) =
      concat (map (\<lambda>p. [Probe host p,
                         Settled p (if scanPort nw host p = Resolved (JNum p) then JNum p else JNull)])
                [startPort..<Suc endPort]) \<and>
    filter is_report (trace (snd (scanPorts nw host startPort endPort))) =
      [Report (filter (\<lambda>p. p \<noteq> 0 \<and> scanPort nw host p = Resolved (JNum p))
                 [startPort..<Suc endPort])] \<and>
    sorted_wrt (<) (filter (\<lambda>p. p \<noteq> 0 \<and> scanPort nw host p = Resolved (JNum p))
                      [startPort..<Suc endPort])"
proof -
  have r: "\<forall>p. startPort \<le> p \<and> p \<le> endPort \<longrightarrow> responds nw host p"
    using assms by (simp add: responds_iff)
  have in_range: "startPort \<le> p \<and> p \<le> endPort" if "p \<in> set [startPort..<Suc endPort]" for p
    using that by auto
  have open_iff: "scanPort nw host p = Resolved (JNum p) \<longleftrightarrow> accepts nw host p"
    if "p \<in> set [startPort..<Suc endPort]" for p
    using in_range[OF that] r scanPort_open_iff[of nw host p] by blast
  have ports: "filter (\<lambda>p. p \<noteq> 0 \<and> accepts nw host p) [startPort..<Suc endPort] =
               filter (\<lambda>p. p \<noteq> 0 \<and> scanPort nw host p = Resolved (JNum p)) [startPort..<Suc endPort]"
    by (rule filter_cong[OF refl]) (use open_iff in blast)
  have events: "map (\<lambda>p. filter is_net_event (iteration nw host p)) [startPort..<Suc endPort] =
      map (\<lambda>p. [Probe host p,
                 Settled p (if scanPort nw host p = Resolved (JNum p) then JNum p else JNull)])
        [startPort..<Suc endPort]"
    by (rule map_cong[OF refl]) (simp add: net_events_iteration open_iff)
  have srt: "sorted_wrt (<) (filter (\<lambda>p. p \<noteq> 0 \<and> scanPort nw host p = Resolved (JNum p))
                      [startPort..<Suc endPort])"
    by (rule sorted_wrt_filter) (simp del: upt_Suc)
  note sp = scanPorts_complete[OF r]
  have compl: "fst (scanPorts nw host startPort endPort) = Fulfilled"
    by (simp only: sp fst_conv)
  have tr: "trace (snd (scanPorts nw host startPort endPort)) =
      [ScanStart host startPort endPort, BarCreate (int endPort - int startPort)] @
      concat (map (iteration nw host) [startPort..<Suc endPort]) @
      [Report (filter (\<lambda>p. p \<noteq> 0 \<and> scanPort nw host p = Resolved (JNum p))
                 [startPort..<Suc endPort])]"
    by (simp only: sp snd_conv scan_state.simps ports)
  have ev: "filter is_net_event (trace (snd (scanPorts nw host startPort endPort))) =
      concat (map (\<lambda>p. [Probe host p,
                         Settled p (if scanPort nw host p = Resolved (JNum p) then JNum p else JNull)])
                [startPort..<Suc endPort])"
    unfolding tr by (simp add: filter_concat_map events del: upt_Suc)
  have rep: "filter is_report (trace (snd (scanPorts nw host startPort endPort))) =
      [Report (filter (\<lambda>p. p \<noteq> 0 \<and> scanPort nw host p = Resolved (JNum p))
                 [startPort..<Suc endPort])]"
    unfolding tr by (simp add: reports_iteration del: upt_Suc)
  from compl ev rep srt show ?thesis by blast
qed

text \<open>The range \<open>[2000, 2005]\<close> with a listener on port 2002 only.\<close>

lemma scan_2000_2005:
  "fst (scanPorts (net_only 2002) ''127.0.0.1'' 2000 2005) = Fulfilled \<and>
   filter is_report (trace (snd (scanPorts (net_only 2002) ''127.0.0.1'' 2000 2005))) =
     [Report [2002]] \<and>
   filter is_net_event (trace (snd (scanPorts (net_only 2002) ''127.0.0.1'' 2000 2005))) =
     [Probe ''127.0.0.1'' 2000, Settled 2000 JNull, Probe ''127.0.0.1'' 2001, Settled 2001 JNull,
      Probe ''127.0.0.1'' 2002, Settled 2002 (JNum 2002), Probe ''127.0.0.1'' 2003, Settled 2003 JNull,
      Probe ''127.0.0.1'' 2004, Settled 2004 JNull, Probe ''127.0.0.1'' 2005, Settled 2005 JNull]"
proof -
  have s: "scanPort (net_only 2002) ''127.0.0.1'' p = Resolved (if p = 2002 then JNum p else JNull)"
    if "p \<le> 65535" for p
    using that scanPort_responds[of "net_only 2002" "''127.0.0.1''" p]
    by (simp add: responds_iff accepts_net_only)
  have u: "[2000..<Suc 2005] = [2000, 2001, 2002, 2003, 2004, 2005]"
    by (simp add: upt_rec)
  show ?thesis
    using scanPorts_within_port_space [of 2005 "net_only 2002" "''127.0.0.1''" 2000]
    unfolding u by (simp add: s)
qed

text \<open>The range \<open>[0, 2]\<close> with a listener on port 2 only: port 0 refuses, and the list is right.\<close>

lemma scan_0_2_port_zero_closed:
  "filter is_report (trace (snd (scanPorts (net_only 2) ''127.0.0.1'' 0 2))) = [Report [2]] \<and>
   filter (\<lambda>p. scanPort (net_only 2) ''127.0.0.1'' p = Resolved (JNum p)) [0..<Suc 2] = [2]"
proof -
  have s: "scanPort (net_only 2) ''127.0.0.1'' p = Resolved (if p = 2 then JNum p else JNull)"
    if "p \<le> 65535" for p
    using that scanPort_responds[of "net_only 2" "''127.0.0.1''" p]
    by (simp add: responds_iff accepts_net_only)
  have u: "[0..<Suc 2] = [0, 1, 2]"
    by (simp add: upt_rec)
  show ?thesis
    using scanPorts_within_port_space [of 2 "net_only 2" "''127.0.0.1''" 0]
    unfolding u by (simp add: s)
qed

text \<open>
  A range that leaves the port space: the probe of port 65536 is rejected, the
  \<^verbatim>\<open>await\<close> throws, and the scan ends there, with port 65537 never probed and no
  list reported.
\<close>

lemma scan_aborts_at_65536:
  "scanPorts (net_only 2002) ''127.0.0.1'' 65535 65537 =
     (Thrown SocketFailure,
      \<lparr>trace = [ScanStart ''127.0.0.1'' 65535 65537, BarCreate 2,
                Tick, Probe ''127.0.0.1'' 65535, Settled 65535 JNull,
                Tick, Probe ''127.0.0.1'' 65536],
       openPorts = [], bar_total = 2, bar_curr = 2\<rparr>)"
proof -
  have a: "scanPort (net_only 2002) ''127.0.0.1'' 65535 = Resolved JNull"
    using scanPort_responds[of "net_only 2002" "''127.0.0.1''" 65535]
    by (simp add: responds_iff accepts_net_only)
  have b: "scanPort (net_only 2002) ''127.0.0.1'' 65536 = Rejected"
    by (simp add: scanPort_rejects)
  show ?thesis
    unfolding scanPorts_def Let_def
    by (simp add: scan_loop_resolved[OF _ a] scan_loop_rejected[OF _ b] emit_def tick_def)
qed

text \<open>
  C1.  On the range \<open>[0, 0]\<close> of a network where port 0 accepts the connection, the
  probe of port 0 resolves with the port number 0, as the probe of every open port
  resolves with its number, and the list the scan reports is empty: the test
  \<^verbatim>\<open>portStatus !== null && portStatus\<close> takes the number 0 for a closed port.
\<close>

theorem scanPorts_port_zero_unreported:
  "scanPort (net_only 0) ''127.0.0.1'' 0 = Resolved (JNum 0) \<and>
   fst (scanPorts (net_only 0) ''127.0.0.1'' 0 0) = Fulfilled \<and>
   filter is_report (trace (snd (scanPorts (net_only 0) ''127.0.0.1'' 0 0))) = [Report []] \<and>
   filter (\<lambda>p. scanPort (net_only 0) ''127.0.0.1'' p = Resolved (JNum p)) [0..<Suc 0] = [0]"
proof -
  have r: "\<forall>p. 0 \<le> p \<and> p \<le> 0 \<longrightarrow> responds (net_only 0) ''127.0.0.1'' p"
    by (simp add: responds_iff)
  have s: "scanPort (net_only 0) ''127.0.0.1'' 0 = Resolved (JNum 0)"
    using scanPort_responds[of "net_only 0" "''127.0.0.1''" 0]
    by (simp add: responds_iff accepts_net_only)
  show ?thesis
    unfolding scanPorts_complete[OF r]
    by (simp add: s iteration_def accepts_net_only)
qed

text \<open>
  C6, as amended.  The orchestrator emits exactly one progress tick for every probe,
  immediately before it, whether the port turns out open or not.  On any network the
  ticks and the probes of a scan alternate, tick first, and the bar has advanced by
  the number of probes; when every port of the range answers, the ticks number
  \<open>endPort - startPort + 1\<close>, one for each port of the range.
\<close>

theorem scanPorts_tick_before_each_probe:
  "(\<exists>n. n \<le> Suc endPort - startPort \<and>
        filter (\<lambda>a. is_tick a \<or> is_probe a) (trace (snd (scanPorts nw host startPort endPort))) =
          concat (map (\<lambda>p. [Tick, Probe host p]) [startPort..<startPort + n]) \<and>
        bar_curr (snd (scanPorts nw host startPort endPort)) = n) \<and>
   (startPort \<le> endPort \<and> (\<forall>p. startPort \<le> p \<and> p \<le> endPort \<longrightarrow> responds nw host p) \<longrightarrow>
      filter (\<lambda>a. is_tick a \<or> is_probe a) (trace (snd (scanPorts nw host startPort endPort))) =
        concat (map (\<lambda>p. [Tick, Probe host p]) [startPort..<Suc endPort]) \<and>
      length (filter is_tick (trace (snd (scanPorts nw host startPort endPort)))) =
        endPort - startPort + 1 \<and>
      length (filter is_probe (trace (snd (scanPorts nw host startPort endPort)))) =
        endPort - startPort + 1 \<and>
      bar_curr (snd (scanPorts nw host startPort endPort)) = endPort - startPort + 1)"
proof -
  let ?st = "snd (scanPorts nw host startPort endPort)"
  let ?tp = "\<lambda>a. is_tick a \<or> is_probe a"
  have general: "\<exists>n. n \<le> Suc endPort - startPort \<and>
        filter ?tp (trace ?st) = concat (map (\<lambda>p. [Tick, Probe host p]) [startPort..<startPort + n]) \<and>
        bar_curr ?st = n"
  proof -
    from scanPorts_general[of nw host startPort endPort]
    obtain ext ps n where g:
      "?st = \<lparr>trace = [ScanStart host startPort endPort, BarCreate (int endPort - int startPort)] @ ext @
                (if fst (scanPorts nw host startPort endPort) = Fulfilled then [Report ps] else []),
        openPorts = ps, bar_total = int endPort - int startPort, bar_curr = n\<rparr>"
      "n \<le> Suc endPort - startPort"
      "filter ?tp ext = concat (map (\<lambda>p. [Tick, Probe host p]) [startPort..<startPort + n])"
      by blast
    have "filter ?tp (trace ?st) = filter ?tp ext"
      by (subst g(1)) simp
    moreover have "bar_curr ?st = n"
      by (subst g(1)) simp
    ultimately show ?thesis using g(2,3) by auto
  qed
  have complete: "filter ?tp (trace ?st) = concat (map (\<lambda>p. [Tick, Probe host p]) [startPort..<Suc endPort]) \<and>
      length (filter is_tick (trace ?st)) = endPort - startPort + 1 \<and>
      length (filter is_probe (trace ?st)) = endPort - startPort + 1 \<and>
      bar_curr ?st = endPort - startPort + 1"
    if le: "startPort \<le> endPort"
      and r: "\<forall>p. startPort \<le> p \<and> p \<le> endPort \<longrightarrow> responds nw host p"
  proof -
    note sp = scanPorts_complete[OF r]
    have tp: "filter ?tp (trace ?st) = concat (map (\<lambda>p. [Tick, Probe host p]) [startPort..<Suc endPort])"
      unfolding sp by (simp add: filter_concat_map ticks_probes_iteration del: upt_Suc)
    have n: "length [startPort..<Suc endPort] = endPort - startPort + 1"
      using le by simp
    have "length (filter is_tick (trace ?st)) = endPort - startPort + 1"
      by (subst filter_filter_ticks(1)) (simp only: tp ticks_concat_pairs length_map n)
    moreover have "length (filter is_probe (trace ?st)) = endPort - startPort + 1"
      by (subst filter_filter_ticks(2)) (simp only: tp probes_concat_pairs length_map n)
    moreover have "bar_curr ?st = endPort - startPort + 1"
      unfolding sp using le by simp
    ultimately show ?thesis using tp by blast
  qed
  from general complete show ?thesis by blast
qed

theorem scanPorts_tick_before_each_probe_witness:
  "filter (\<lambda>a. is_tick a \<or> is_probe a)
     (trace (snd (scanPorts (net_only 2002) ''127.0.0.1'' 2001 2003))) =
     [Tick, Probe ''127.0.0.1'' 2001, Tick, Probe ''127.0.0.1'' 2002, Tick, Probe ''127.0.0.1'' 2003] \<and>
   length (filter is_tick (trace (snd (scanPorts (net_only 2002) ''127.0.0.1'' 2001 2003)))) = 3 \<and>
   bar_curr (snd (scanPorts (net_only 2002) ''127.0.0.1'' 2001 2003)) = 3"
proof -
  have r: "\<forall>p. 2001 \<le> p \<and> p \<le> 2003 \<longrightarrow> responds (net_only 2002) ''127.0.0.1'' p"
    by (simp add: responds_iff)
  have u: "[2001..<Suc 2003] = [2001, 2002, 2003]"
    by (simp add: upt_rec)
  show ?thesis
    using scanPorts_tick_before_each_probe [of 2003 2001 "net_only 2002" "''127.0.0.1''"] r
    unfolding u by simp
qed

text \<open>
  C6, as stated, fails on the one-port range \<open>[5, 5]\<close>: the tick comes before the
  probe and none follows it, and the bar was created with the total 0 for the one port
  that is probed.
\<close>

theorem scanPorts_progress_counterexample:
  "filter (\<lambda>a. is_tick a \<or> is_probe a)
     (trace (snd (scanPorts (net_only 5) ''127.0.0.1'' 5 5))) = [Tick, Probe ''127.0.0.1'' 5] \<and>
   bar_total (snd (scanPorts (net_only 5) ''127.0.0.1'' 5 5)) = 0 \<and>
   bar_curr (snd (scanPorts (net_only 5) ''127.0.0.1'' 5 5)) = 1 \<and>
   \<not> spec_progress ''127.0.0.1'' 5 5 (snd (scanPorts (net_only 5) ''127.0.0.1'' 5 5))"
proof -
  have r: "\<forall>p. 5 \<le> p \<and> p \<le> 5 \<longrightarrow> responds (net_only 5) ''127.0.0.1'' p"
    by (simp add: responds_iff)
  have u: "[5..<Suc 5] = [5]"
    by (simp add: upt_rec)
  show ?thesis
    unfolding scanPorts_complete[OF r] spec_progress_def u
    by (simp add: iteration_def accepts_net_only)
qed

text \<open>
  C9.  Port 0 is never recorded as open: it is in no list of open ports the
  orchestrator holds or reports, on any network and for any range, although the probe
  of port 0 resolves with the number 0 when port 0 accepts the connection.
\<close>

theorem scanPorts_port_zero_not_recorded:
  "0 \<notin> set (openPorts (snd (scanPorts nw host startPort endPort))) \<and>
   (\<forall>ps. Report ps \<in> set (trace (snd (scanPorts nw host startPort endPort))) \<longrightarrow> 0 \<notin> set ps) \<and>
   (accepts nw host 0 \<longrightarrow> scanPort nw host 0 = Resolved (JNum 0))"
proof -
  let ?st = "snd (scanPorts nw host startPort endPort)"
  from scanPorts_general[of nw host startPort endPort]
  obtain ext ps n where g:
    "?st = \<lparr>trace = [ScanStart host startPort endPort, BarCreate (int endPort - int startPort)] @ ext @
              (if fst (scanPorts nw host startPort endPort) = Fulfilled then [Report ps] else []),
      openPorts = ps, bar_total = int endPort - int startPort, bar_curr = n\<rparr>"
    "list_all (loop_action host) ext" "0 \<notin> set ps"
    by blast
  have "openPorts ?st = ps"
    by (subst g(1)) simp
  with g(3) have a: "0 \<notin> set (openPorts ?st)" by simp
  have no_report: "Report qs \<notin> set ext" for qs
    using g(2) by (auto simp: list_all_iff)
  have "qs = ps" if "Report qs \<in> set (trace ?st)" for qs
    using that no_report[of qs] by (subst (asm) g(1)) (auto split: if_splits)
  with g(3) have b: "\<forall>qs. Report qs \<in> set (trace ?st) \<longrightarrow> 0 \<notin> set qs" by blast
  have c: "scanPort nw host 0 = Resolved (JNum 0)" if "accepts nw host 0"
  proof -
    from that obtain es where "socket_connect 2000 0 (nw host 0) = Emits (Connect # es)"
      by (auto simp: accepts_def split: conn.splits list.splits sock_event.splits)
    then show ?thesis
      using scanPort_first_event[of 0 nw host Connect es] by simp
  qed
  from a b c show ?thesis by blast
qed

theorem scanPorts_port_zero_not_recorded_witness:
  "accepts (net_only 0) ''127.0.0.1'' 0 \<and>
   scanPort (net_only 0) ''127.0.0.1'' 0 = Resolved (JNum 0) \<and>
   Report [] \<in> set (trace (snd (scanPorts (net_only 0) ''127.0.0.1'' 0 2))) \<and>
   0 \<notin> set (openPorts (snd (scanPorts (net_only 0) ''127.0.0.1'' 0 2)))"
proof -
  have r: "\<forall>p. 0 \<le> p \<and> p \<le> 2 \<longrightarrow> responds (net_only 0) ''127.0.0.1'' p"
    by (simp add: responds_iff)
  have a: "accepts (net_only 0) ''127.0.0.1'' 0"
    by (simp add: accepts_net_only)
  have u: "[0..<Suc 2] = [0, 1, 2]"
    by (simp add: upt_rec)
  have "Report [] \<in> set (trace (snd (scanPorts (net_only 0) ''127.0.0.1'' 0 2)))"
    unfolding scanPorts_complete[OF r] u
    by (simp add: accepts_net_only)
  with a scanPorts_port_zero_not_recorded [of "net_only 0" "''127.0.0.1''" 0 2]
  show ?thesis by blast
qed


section \<open>The run as a whole\<close>

lemma range_ports:
  assumes "isPortRangeCheck pr"
  obtains a b where "split_on CHR ''-'' pr = [a, b]" "decimal_group a" "decimal_group b"
    "map Number (split_on CHR ''-'' pr) ! 0 = Number a"
    "map Number (split_on CHR ''-'' pr) ! 1 = Number b"
proof -
  from assms obtain a b where ab: "split_on CHR ''-'' pr = [a, b]" "decimal_group a" "decimal_group b"
    unfolding isPortRangeCheck_split by blast
  then have "map Number (split_on CHR ''-'' pr) ! 0 = Number a"
    "map Number (split_on CHR ''-'' pr) ! 1 = Number b"
    by simp_all
  with ab show ?thesis by (rule that)
qed

text \<open>The four ways a run can go.\<close>

lemma run_cases:
  obtains
    (resolve_failed) "\<not> isIpCheck ip" "dns_lookup w ip = None"
      "run w ip pr = (Some 1, [DnsLookup ip, LogError DomainResolveFailed])"
  | (bad_address) addr where "\<not> isIpCheck ip" "dns_lookup w ip = Some addr" "\<not> isIpCheck addr"
      "run w ip pr = (Some 1, [DnsLookup ip, LogError (IpInvalid ip)])"
  | (bad_range) host where "isIpCheck host"
      "host = ip \<or> (\<not> isIpCheck ip \<and> dns_lookup w ip = Some host)"
      "\<not> isPortRangeCheck pr"
      "run w ip pr =
         (Some 1, (if isIpCheck ip then [] else [DnsLookup ip]) @ [LogError (PortRangeInvalid pr)])"
  | (scan) host a b where "isIpCheck host"
      "host = ip \<or> (\<not> isIpCheck ip \<and> dns_lookup w ip = Some host)"
      "isPortRangeCheck pr" "split_on CHR ''-'' pr = [a, b]" "decimal_group a" "decimal_group b"
      "run w ip pr =
         (case fst (scanPorts (net_connect w) host (Number a) (Number b)) of
            Fulfilled \<Rightarrow> Some 0 | Thrown e \<Rightarrow> Some 1 | Stalled \<Rightarrow> None,
          (if isIpCheck ip then [] else [DnsLookup ip]) @
          trace (snd (scanPorts (net_connect w) host (Number a) (Number b))) @
          (case fst (scanPorts (net_connect w) host (Number a) (Number b)) of
             Thrown e \<Rightarrow> [LogError e] | _ \<Rightarrow> []))"
proof -
  have scan_run: "run w ip pr =
         (case fst (scanPorts (net_connect w) host (Number a) (Number b)) of
            Fulfilled \<Rightarrow> Some 0 | Thrown e \<Rightarrow> Some 1 | Stalled \<Rightarrow> None,
          tr @ trace (snd (scanPorts (net_connect w) host (Number a) (Number b))) @
          (case fst (scanPorts (net_connect w) host (Number a) (Number b)) of
             Thrown e \<Rightarrow> [LogError e] | _ \<Rightarrow> []))"
    if m: "main w ip pr =
        (let ports = map Number (split_on CHR ''-'' pr);
             (r, st) = scanPorts (net_connect w) host (ports ! 0) (ports ! 1)
         in (r, tr @ trace st))"
      and p: "map Number (split_on CHR ''-'' pr) ! 0 = Number a"
        "map Number (split_on CHR ''-'' pr) ! 1 = Number b"
    for host a b tr
  proof -
    obtain r st where sc: "scanPorts (net_connect w) host (Number a) (Number b) = (r, st)"
      by (cases "scanPorts (net_connect w) host (Number a) (Number b)")
    with m p have "main w ip pr = (r, tr @ trace st)"
      by (simp add: Let_def)
    then show ?thesis
      by (cases r) (simp_all add: run_def sc)
  qed
  show ?thesis
  proof (cases "isIpCheck ip")
    case True
    show ?thesis
    proof (cases "isPortRangeCheck pr")
      case False
      with True have "run w ip pr = (Some 1, [LogError (PortRangeInvalid pr)])"
        by (simp add: run_def main_def)
      with True False show ?thesis by (intro bad_range[of ip]) simp_all
    next
      case pr: True
      then obtain a b where ab: "split_on CHR ''-'' pr = [a, b]" "decimal_group a" "decimal_group b"
        "map Number (split_on CHR ''-'' pr) ! 0 = Number a"
        "map Number (split_on CHR ''-'' pr) ! 1 = Number b"
        by (rule range_ports)
      from True pr have "main w ip pr =
        (let ports = map Number (split_on CHR ''-'' pr);
             (r, st) = scanPorts (net_connect w) ip (ports ! 0) (ports ! 1)
         in (r, [] @ trace st))"
        by (simp add: main_def)
      from scan_run[OF this ab(4,5)] True pr ab(1-3) show ?thesis
        by (intro scan[of ip a b]) simp_all
    qed
  next
    case False
    show ?thesis
    proof (cases "dns_lookup w ip")
      case None
      with False have "run w ip pr = (Some 1, [DnsLookup ip, LogError DomainResolveFailed])"
        by (simp add: run_def main_def resolveDomain_def)
      with False None show ?thesis by (rule resolve_failed)
    next
      case (Some addr)
      show ?thesis
      proof (cases "isIpCheck addr")
        case bad: False
        with False Some have "run w ip pr = (Some 1, [DnsLookup ip, LogError (IpInvalid ip)])"
          by (simp add: run_def main_def resolveDomain_def)
        with False Some bad show ?thesis by (rule bad_address)
      next
        case good: True
        show ?thesis
        proof (cases "isPortRangeCheck pr")
          case bad: False
          with False Some good
          have "run w ip pr = (Some 1, [DnsLookup ip, LogError (PortRangeInvalid pr)])"
            by (simp add: run_def main_def resolveDomain_def)
          with False Some good bad show ?thesis by (intro bad_range[of addr]) simp_all
        next
          case pr: True
          then obtain a b where ab: "split_on CHR ''-'' pr = [a, b]" "decimal_group a" "decimal_group b"
            "map Number (split_on CHR ''-'' pr) ! 0 = Number a"
            "map Number (split_on CHR ''-'' pr) ! 1 = Number b"
            by (rule range_ports)
          from False Some good pr have "main w ip pr =
            (let ports = map Number (split_on CHR ''-'' pr);
                 (r, st) = scanPorts (net_connect w) addr (ports ! 0) (ports ! 1)
             in (r, [DnsLookup ip] @ trace st))"
            by (simp add: main_def resolveDomain_def)
          from scan_run[OF this ab(4,5)] False Some good pr ab(1-3) show ?thesis
            by (intro scan[of addr a b]) simp_all
        qed
      qed
    qed
  qed
qed

text \<open>What a scan leaves in the trace, on any network.\<close>

lemma scanPorts_trace:
  obtains ext where
    "trace (snd (scanPorts nw host s e)) = ScanStart host s e # BarCreate (int e - int s) # ext"
    "list_all (\<lambda>a. loop_action host a \<or> is_report a) ext"
proof -
  from scanPorts_general[of nw host s e]
  obtain ext ps n where g:
    "snd (scanPorts nw host s e) =
       \<lparr>trace = [ScanStart host s e, BarCreate (int e - int s)] @ ext @
                (if fst (scanPorts nw host s e) = Fulfilled then [Report ps] else []),
        openPorts = ps, bar_total = int e - int s, bar_curr = n\<rparr>"
    "list_all (loop_action host) ext"
    by blast
  let ?ext = "ext @ (if fst (scanPorts nw host s e) = Fulfilled then [Report ps] else [])"
  have "trace (snd (scanPorts nw host s e)) = ScanStart host s e # BarCreate (int e - int s) # ?ext"
    by (subst g(1)) simp
  moreover have "list_all (\<lambda>a. loop_action host a \<or> is_report a) ?ext"
    using g(2) by (auto simp: list_all_iff)
  ultimately show ?thesis by (rule that)
qed

lemma loop_or_report_facts:
  assumes "list_all (\<lambda>a. loop_action host a \<or> is_report a) ext"
  shows "filter is_dns ext = []"
    and "ScanStart h a b \<notin> set ext"
    and "Probe h p \<in> set ext \<Longrightarrow> h = host"
proof -
  have l: "loop_action host x \<or> is_report x" if "x \<in> set ext" for x
    using assms that by (simp add: list_all_iff)
  have "\<not> is_dns x" if "x \<in> set ext" for x
    using l[OF that] by (cases x) simp_all
  then show "filter is_dns ext = []"
    by (simp add: filter_empty_conv)
  show "ScanStart h a b \<notin> set ext"
    using l[of "ScanStart h a b"] by auto
  show "h = host" if "Probe h p \<in> set ext"
    using l[OF that] by simp
qed

text \<open>A complete run: a name that resolves, three ports, one of them open.\<close>

lemma run_example:
  "run world_example ''localhost'' ''2001-2003'' =
     (Some 0,
      [DnsLookup ''localhost'', ScanStart ''127.0.0.1'' 2001 2003, BarCreate 2,
       Tick, Probe ''127.0.0.1'' 2001, Settled 2001 JNull,
       Tick, Probe ''127.0.0.1'' 2002, Settled 2002 (JNum 2002), EraseLine,
       Tick, Probe ''127.0.0.1'' 2003, Settled 2003 JNull,
       Report [2002]])"
proof -
  have ip: "\<not> isIpCheck ''localhost''" "isIpCheck ''127.0.0.1''"
    by (simp_all add: isIpCheck_split octet_def is_digit_def Number_def digit_val_def)
  have pr: "isPortRangeCheck ''2001-2003''"
    by (simp add: isPortRangeCheck_split decimal_group_def is_digit_def)
  have n: "Number ''2001'' = 2001" "Number ''2003'' = 2003"
    by (simp_all add: Number_def digit_val_def)
  have r: "\<forall>p. 2001 \<le> p \<and> p \<le> 2003 \<longrightarrow> responds (net_only 2002) ''127.0.0.1'' p"
    by (simp add: responds_iff)
  have u: "[2001..<Suc 2003] = [2001, 2002, 2003]"
    by (simp add: upt_rec)
  have sc: "scanPorts (net_only 2002) ''127.0.0.1'' 2001 2003 =
    (Fulfilled,
     \<lparr>trace = [ScanStart ''127.0.0.1'' 2001 2003, BarCreate 2,
       Tick, Probe ''127.0.0.1'' 2001, Settled 2001 JNull,
       Tick, Probe ''127.0.0.1'' 2002, Settled 2002 (JNum 2002), EraseLine,
       Tick, Probe ''127.0.0.1'' 2003, Settled 2003 JNull,
       Report [2002]],
      openPorts = [2002], bar_total = 2, bar_curr = 3\<rparr>)"
    unfolding scanPorts_complete[OF r] u
    by (simp add: iteration_def accepts_net_only)
  have w: "dns_lookup world_example ''localhost'' = Some ''127.0.0.1''"
    "net_connect world_example = net_only 2002"
    by (simp_all add: world_example_def)
  show ?thesis
    by (simp add: run_def main_def resolveDomain_def ip pr n w sc)
qed

text \<open>
  C7.  The resolver is consulted exactly once when the input fails \<open>isIpCheck\<close> and
  not at all when it passes; when that one lookup fails, the run logs the resolution
  failure and exits with code 1, and nothing else happens: no second lookup, no scan,
  no probe.
\<close>

theorem resolution_once_for_names_only:
  "filter is_dns (snd (run w ip pr)) = (if isIpCheck ip then [] else [DnsLookup ip]) \<and>
   (\<not> isIpCheck ip \<and> dns_lookup w ip = None \<longrightarrow>
      run w ip pr = (Some 1, [DnsLookup ip, LogError DomainResolveFailed]))"
proof (cases rule: run_cases[where ip=ip and w=w and pr=pr])
  case resolve_failed
  then show ?thesis by simp
next
  case (bad_address addr)
  then show ?thesis by simp
next
  case (bad_range host)
  then show ?thesis by auto
next
  case (scan host a b)
  obtain ext where e:
    "trace (snd (scanPorts (net_connect w) host (Number a) (Number b))) =
       ScanStart host (Number a) (Number b) # BarCreate (int (Number b) - int (Number a)) # ext"
    "list_all (\<lambda>a. loop_action host a \<or> is_report a) ext"
    by (rule scanPorts_trace)
  have "filter is_dns (snd (run w ip pr)) = (if isIpCheck ip then [] else [DnsLookup ip])"
    unfolding scan(7) snd_conv e(1)
    by (simp add: loop_or_report_facts(1)[OF e(2)] split: outcome.splits)
  moreover have "\<not> (\<not> isIpCheck ip \<and> dns_lookup w ip = None)"
    using scan(1,2) by auto
  ultimately show ?thesis by blast
qed

theorem resolution_once_for_names_only_witness:
  "\<not> isIpCheck ''nohost.invalid'' \<and> dns_lookup world_example ''nohost.invalid'' = None \<and>
   run world_example ''nohost.invalid'' ''1-10'' =
     (Some 1, [DnsLookup ''nohost.invalid'', LogError DomainResolveFailed]) \<and>
   isIpCheck ''127.0.0.1'' \<and> filter is_dns (snd (run world_example ''127.0.0.1'' ''1-10'')) = []"
proof -
  have a: "\<not> isIpCheck ''nohost.invalid''" "isIpCheck ''127.0.0.1''"
    by (simp_all add: isIpCheck_split octet_def is_digit_def Number_def digit_val_def)
  have b: "dns_lookup world_example ''nohost.invalid'' = None"
    by (simp add: world_example_def)
  from a b resolution_once_for_names_only [of world_example "''nohost.invalid''" "''1-10''"]
    resolution_once_for_names_only [of world_example "''127.0.0.1''" "''1-10''"]
  show ?thesis by simp
qed

text \<open>
  C10.  The orchestrator runs, and probes, only on a host string that satisfies
  \<open>isIpCheck\<close>: the resolved address is checked again, and when the resolver returns
  an address that is not an IPv4 literal the run logs the invalid address and exits
  with code 1 without scanning.
\<close>

theorem scan_only_on_checked_host:
  "(\<forall>h a b. ScanStart h a b \<in> set (snd (run w ip pr)) \<longrightarrow> isIpCheck h) \<and>
   (\<forall>h p. Probe h p \<in> set (snd (run w ip pr)) \<longrightarrow> isIpCheck h) \<and>
   (\<not> isIpCheck ip \<and> dns_lookup w ip = Some addr \<and> \<not> isIpCheck addr \<longrightarrow>
      run w ip pr = (Some 1, [DnsLookup ip, LogError (IpInvalid ip)]))"
proof (cases rule: run_cases[where ip=ip and w=w and pr=pr])
  case resolve_failed
  then show ?thesis by simp
next
  case (bad_address addr')
  then show ?thesis by simp
next
  case (bad_range host)
  have "\<not> (\<not> isIpCheck ip \<and> dns_lookup w ip = Some addr \<and> \<not> isIpCheck addr)"
    using bad_range(1,2) by auto
  moreover have "ScanStart h a b \<notin> set (snd (run w ip pr))" for h a b
    by (simp add: bad_range(4))
  moreover have "Probe h p \<notin> set (snd (run w ip pr))" for h p
    by (simp add: bad_range(4))
  ultimately show ?thesis by blast
next
  case (scan host a b)
  obtain ext where e:
    "trace (snd (scanPorts (net_connect w) host (Number a) (Number b))) =
       ScanStart host (Number a) (Number b) # BarCreate (int (Number b) - int (Number a)) # ext"
    "list_all (\<lambda>a. loop_action host a \<or> is_report a) ext"
    by (rule scanPorts_trace)
  note f = loop_or_report_facts[OF e(2)]
  define tail where "tail = (case fst (scanPorts (net_connect w) host (Number a) (Number b)) of
             Thrown e \<Rightarrow> [LogError e] | _ \<Rightarrow> [])"
  have tail: "ScanStart h x y \<notin> set tail" "Probe h q \<notin> set tail" for h x y q
    by (simp_all add: tail_def split: outcome.splits)
  have tr: "snd (run w ip pr) = (if isIpCheck ip then [] else [DnsLookup ip]) @
      (ScanStart host (Number a) (Number b) # BarCreate (int (Number b) - int (Number a)) # ext) @ tail"
    by (simp only: scan(7) snd_conv e(1) tail_def)
  have s: "h = host" if "ScanStart h x y \<in> set (snd (run w ip pr))" for h x y
    using that f(2)[of h x y] tail(1)[of h x y] unfolding tr by (simp split: if_splits)
  have p: "h = host" if "Probe h q \<in> set (snd (run w ip pr))" for h q
    using that f(3)[of h q] tail(2)[of h q] unfolding tr by (simp split: if_splits)
  have "\<not> (\<not> isIpCheck ip \<and> dns_lookup w ip = Some addr \<and> \<not> isIpCheck addr)"
    using scan(1,2) by auto
  with s p scan(1) show ?thesis by blast
qed

theorem scan_only_on_checked_host_witness:
  "\<not> isIpCheck ''ip6-localhost'' \<and> dns_lookup world_example ''ip6-localhost'' = Some ''::1'' \<and>
   \<not> isIpCheck ''::1'' \<and>
   run world_example ''ip6-localhost'' ''1-10'' =
     (Some 1, [DnsLookup ''ip6-localhost'', LogError (IpInvalid ''ip6-localhost'')]) \<and>
   ScanStart ''127.0.0.1'' 2001 2003 \<in> set (snd (run world_example ''localhost'' ''2001-2003'')) \<and>
   isIpCheck ''127.0.0.1''"
proof -
  have a: "\<not> isIpCheck ''ip6-localhost''" "\<not> isIpCheck ''::1''"
    by (simp_all add: isIpCheck_split)
  have b: "dns_lookup world_example ''ip6-localhost'' = Some ''::1''"
    by (simp add: world_example_def)
  from a b scan_only_on_checked_host [of world_example "''ip6-localhost''" "''1-10''" "''::1''"]
  have c: "run world_example ''ip6-localhost'' ''1-10'' =
     (Some 1, [DnsLookup ''ip6-localhost'', LogError (IpInvalid ''ip6-localhost'')])"
    by blast
  have s: "ScanStart ''127.0.0.1'' 2001 2003 \<in> set (snd (run world_example ''localhost'' ''2001-2003''))"
    by (simp add: run_example)
  with scan_only_on_checked_host [of world_example "''localhost''" "''2001-2003''"]
  have "isIpCheck ''127.0.0.1''"
    by blast
  with a b c s show ?thesis by blast
qed





end
